theory Spec2Isabelle
  imports Main
begin

section \<open>Data model of the popover (src/utils/popover.js)\<close>

text \<open>
  The file holds two variants of the class \<open>Popover\<close>: the first (lines 1-264, here
  \<open>Remote\<close>) answers a keystroke with a debounced fetch, the second (lines 265-460, here
  \<open>Local\<close>) filters its own item list with a regular expression. Both are embedded; where
  the two texts agree (\<open>open\<close>, \<open>close\<close>, the confirmation helpers) one definition
  stands for both.

  Strings are lists of \<open>char\<close>, read as code units below 256. Host callbacks are not
  run: an item names its \<open>onClick\<close> by a \<open>callback\<close> value and the state records the
  calls in order; \<open>hideIf\<close> is a handle, and the predicate's value at the moment of the
  call is a parameter of \<open>open\<close>.
\<close>

datatype error = TypeError | SyntaxError

datatype variant = Remote | Local

record product =
  title :: string
  category :: string

datatype callback =
    HostCallback nat
  | AddProductRow string string

record item =
  label :: string
  icon :: string
  confirmationRequired :: bool
  hideIf :: "nat option"
  onClick :: "callback option"
  content :: "nat option"

datatype row_child = ContentEl nat | IconEl string | LabelEl string

text \<open>A row element: \<open>dataset.index\<close>, its children, and the two CSS flags of its class list.\<close>

record row_el =
  dataset_index :: nat
  row_children :: "row_child list"
  itemConfirmState :: bool
  itemHidden :: bool

datatype node = SearchInput | ItemEl nat

record wrapper_el =
  popoverOpened :: bool
  wrapper_children :: "node list"

text \<open>
  The instance fields (\<open>items\<close>, \<open>wrapper\<close>, \<open>itemEls\<close>, \<open>interval\<close>) and the part of
  the environment the methods act on: \<open>heap\<close> stores every row element ever made (a
  reference to a row is its position there), \<open>invoked\<close> the \<open>onClick\<close> calls,
  \<open>console\<close> the logged pairs, \<open>timers\<close> the pending timeouts as (handle, due time),
  \<open>clock\<close> the time in milliseconds, \<open>fetches\<close> the number of fetch cycles started.
\<close>

record popover =
  items :: "item list"
  wrapper :: "wrapper_el option"
  itemEls :: "nat list"
  interval :: "nat option"
  heap :: "row_el list"
  invoked :: "callback list"
  console :: "(string \<times> string) list"
  timers :: "(nat \<times> nat) list"
  next_handle :: nat
  clock :: nat
  fetches :: nat

text \<open>The constructor (lines 20-26 and 284-288).\<close>

definition new_popover :: "item list \<Rightarrow> popover" where
  "new_popover its =
     \<lparr>items = its, wrapper = None, itemEls = [], interval = None, heap = [],
      invoked = [], console = [], timers = [], next_handle = 0, clock = 0, fetches = 0\<rparr>"

section \<open>Rendering\<close>

fun is_item :: "node \<Rightarrow> bool" where
  "is_item (ItemEl r) = True"
| "is_item SearchInput = False"

text \<open>\<open>querySelectorAll('.tc-popover__item')\<close> followed by \<open>removeChild\<close> on each hit.\<close>

definition removeItemEls :: "wrapper_el \<Rightarrow> wrapper_el" where
  "removeItemEls w = w\<lparr>wrapper_children := filter (\<lambda>n. \<not> is_item n) (wrapper_children w)\<rparr>"

text \<open>
  Modelled from the spec: \<open>$.make(tag, classes, attributes)\<close> of \<open>./dom\<close>, which is
  not among the sources, creates an element of the given tag with the given class names
  and property assignments and nothing else (sections 1 and 6). So the row built for one
  item (lines 149-165) is a fresh element of class \<open>tc-popover__item\<close> with neither
  flag, stamped with its index, holding the item's content if it has one and the icon and
  label elements otherwise.
\<close>

definition make_row :: "item \<Rightarrow> nat \<Rightarrow> row_el" where
  "make_row it i =
     \<lparr>dataset_index = i,
      row_children = (case content it of
                        Some c \<Rightarrow> [ContentEl c]
                      | None \<Rightarrow> [IconEl (icon it), LabelEl (label it)]),
      itemConfirmState = False,
      itemHidden = False\<rparr>"

text \<open>
  \<open>itemEl.appendChild(item.content)\<close> (lines 160-161 and 355-356) moves the content
  element: it leaves the row that held it, whether that row is attached or not. The icon
  and label elements are made anew for every row and are never moved.
\<close>

definition detach_content :: "item \<Rightarrow> row_el \<Rightarrow> row_el" where
  "detach_content it row =
     (case content it of
        None \<Rightarrow> row
      | Some c \<Rightarrow> row\<lparr>row_children := filter (\<lambda>ch. ch \<noteq> ContentEl c) (row_children row)\<rparr>)"

text \<open>
  One round of the loop (lines 148-169): build the row, taking the item's content out of
  the rows made before, append the row to the wrapper and push it on \<open>itemEls\<close>.
\<close>

definition appendRow :: "item \<Rightarrow> nat \<Rightarrow> popover \<Rightarrow> popover" where
  "appendRow it i st =
     st\<lparr>heap := map (detach_content it) (heap st) @ [make_row it i],
        wrapper := map_option
          (\<lambda>w. w\<lparr>wrapper_children := wrapper_children w @ [ItemEl (length (heap st))]\<rparr>)
          (wrapper st),
        itemEls := itemEls st @ [length (heap st)]\<rparr>"

fun forEach_rows :: "item list \<Rightarrow> nat \<Rightarrow> popover \<Rightarrow> popover" where
  "forEach_rows [] i st = st"
| "forEach_rows (it # its) i st = forEach_rows its (Suc i) (appendRow it i st)"

text \<open>
  \<open>renderItems\<close>, remote variant (lines 141-170): \<open>this.items\<close> is assigned first, so the
  assignment stands even when the wrapper is still undefined and the next line throws.
\<close>

definition renderItems_remote :: "item list \<Rightarrow> popover \<Rightarrow> error option \<times> popover" where
  "renderItems_remote its st =
     (let st1 = st\<lparr>items := its\<rparr> in
      case wrapper st1 of
        None \<Rightarrow> (Some TypeError, st1)
      | Some w \<Rightarrow> (None, forEach_rows its 0 (st1\<lparr>wrapper := Some (removeItemEls w)\<rparr>)))"

text \<open>\<open>renderItems\<close>, local variant (lines 337-365): \<open>this.items\<close> is not assigned.\<close>

definition renderItems_local :: "item list \<Rightarrow> popover \<Rightarrow> error option \<times> popover" where
  "renderItems_local its st =
     (case wrapper st of
        None \<Rightarrow> (Some TypeError, st)
      | Some w \<Rightarrow> (None, forEach_rows its 0 (st\<lparr>wrapper := Some (removeItemEls w)\<rparr>)))"

fun renderItems :: "variant \<Rightarrow> item list \<Rightarrow> popover \<Rightarrow> error option \<times> popover" where
  "renderItems Remote = renderItems_remote"
| "renderItems Local = renderItems_local"

text \<open>
  \<open>render\<close> (lines 112-139 and 313-335): a new wrapper holding the search field, then
  \<open>renderItems(this.items)\<close>. The two listeners it attaches are the functions
  \<open>keydown_remote\<close>, \<open>keydown_local\<close> and \<open>popoverClicked\<close> below.
\<close>

definition render :: "variant \<Rightarrow> popover \<Rightarrow> error option \<times> popover" where
  "render v st =
     (let st1 = st\<lparr>wrapper := Some \<lparr>popoverOpened = False, wrapper_children = [SearchInput]\<rparr>\<rparr>
      in renderItems v (items st1) st1)"

text \<open>The rows attached to the wrapper, in document order.\<close>

fun item_refs :: "node list \<Rightarrow> nat list" where
  "item_refs [] = []"
| "item_refs (ItemEl r # ns) = r # item_refs ns"
| "item_refs (SearchInput # ns) = item_refs ns"

definition attached :: "popover \<Rightarrow> nat list" where
  "attached st = (case wrapper st of None \<Rightarrow> [] | Some w \<Rightarrow> item_refs (wrapper_children w))"

definition attached_rows :: "popover \<Rightarrow> row_el list" where
  "attached_rows st = map (\<lambda>r. heap st ! r) (attached st)"

section \<open>Clicks and the confirmation state\<close>

definition setConfirmationState :: "nat \<Rightarrow> popover \<Rightarrow> popover" where
  "setConfirmationState r st = st\<lparr>heap := (heap st)[r := (heap st ! r)\<lparr>itemConfirmState := True\<rparr>]\<rparr>"

definition clearConfirmationState :: "nat \<Rightarrow> popover \<Rightarrow> popover" where
  "clearConfirmationState r st = st\<lparr>heap := (heap st)[r := (heap st ! r)\<lparr>itemConfirmState := False\<rparr>]\<rparr>"

definition hasConfirmationState :: "nat \<Rightarrow> popover \<Rightarrow> bool" where
  "hasConfirmationState r st = itemConfirmState (heap st ! r)"

text \<open>
  What \<open>event.target.closest('.tc-popover__item')\<close> yields: a row element, or nothing
  for a click on the search field, the padding or a gap.
\<close>

datatype target = NoRow | Row nat

text \<open>\<open>item.onClick()\<close>: a TypeError when the item or its \<open>onClick\<close> is undefined.\<close>

definition call_onClick :: "item option \<Rightarrow> popover \<Rightarrow> error option \<times> popover" where
  "call_onClick io st =
     (case io of
        None \<Rightarrow> (Some TypeError, st)
      | Some it \<Rightarrow> (case onClick it of
                     None \<Rightarrow> (Some TypeError, st)
                   | Some cb \<Rightarrow> (None, st\<lparr>invoked := invoked st @ [cb]\<rparr>)))"

text \<open>\<open>this.items[clickedItemIndex]\<close>: undefined out of range.\<close>

definition item_at :: "popover \<Rightarrow> nat \<Rightarrow> item option" where
  "item_at st i = (if i < length (items st) then Some (items st ! i) else None)"

text \<open>
  \<open>popoverClicked\<close>, remote variant (lines 178-197): \<open>item?.confirmationRequired\<close> is
  undefined, hence false, for an undefined item.
\<close>

definition popoverClicked_remote :: "target \<Rightarrow> popover \<Rightarrow> error option \<times> popover" where
  "popoverClicked_remote tg st =
     (case tg of
        NoRow \<Rightarrow> (None, st)
      | Row clickedItem \<Rightarrow>
          (let clickedItemIndex = dataset_index (heap st ! clickedItem);
               it = item_at st clickedItemIndex
           in if (case it of None \<Rightarrow> False | Some i \<Rightarrow> confirmationRequired i)
                 \<and> \<not> hasConfirmationState clickedItem st
              then (None, setConfirmationState clickedItem st)
              else call_onClick it st))"

text \<open>
  \<open>popoverClicked\<close>, local variant (lines 373-393): \<open>item.confirmationRequired\<close> throws
  for an undefined item.
\<close>

definition popoverClicked_local :: "target \<Rightarrow> popover \<Rightarrow> error option \<times> popover" where
  "popoverClicked_local tg st =
     (case tg of
        NoRow \<Rightarrow> (None, st)
      | Row clickedItem \<Rightarrow>
          (let clickedItemIndex = dataset_index (heap st ! clickedItem)
           in case item_at st clickedItemIndex of
                None \<Rightarrow> (Some TypeError, st)
              | Some it \<Rightarrow>
                  if confirmationRequired it \<and> \<not> hasConfirmationState clickedItem st
                  then (None, setConfirmationState clickedItem st)
                  else call_onClick (Some it) st))"

fun popoverClicked :: "variant \<Rightarrow> target \<Rightarrow> popover \<Rightarrow> error option \<times> popover" where
  "popoverClicked Remote = popoverClicked_remote"
| "popoverClicked Local = popoverClicked_local"

section \<open>Opening and closing\<close>

definition set_hidden :: "nat \<Rightarrow> bool \<Rightarrow> popover \<Rightarrow> popover" where
  "set_hidden r b st = st\<lparr>heap := (heap st)[r := (heap st ! r)\<lparr>itemHidden := b\<rparr>]\<rparr>"

text \<open>
  The loop of \<open>open\<close> (lines 244-248 and 440-444): for an item with a \<open>hideIf\<close>,
  \<open>this.itemEls[index].classList.toggle(itemHidden, item.hideIf())\<close>; reading
  \<open>classList\<close> of an undefined \<open>itemEls[index]\<close> throws. \<open>h\<close> gives what each
  predicate returns now.
\<close>

fun forEach_hideIf :: "(nat \<Rightarrow> bool) \<Rightarrow> item list \<Rightarrow> nat \<Rightarrow> popover \<Rightarrow> error option \<times> popover" where
  "forEach_hideIf h [] index st = (None, st)"
| "forEach_hideIf h (it # its) index st =
     (case hideIf it of
        None \<Rightarrow> forEach_hideIf h its (Suc index) st
      | Some p \<Rightarrow>
          if index < length (itemEls st)
          then forEach_hideIf h its (Suc index) (set_hidden (itemEls st ! index) (h p) st)
          else (Some TypeError, st))"

definition open_popover :: "(nat \<Rightarrow> bool) \<Rightarrow> popover \<Rightarrow> error option \<times> popover" where
  "open_popover h st =
     (case forEach_hideIf h (items st) 0 st of
        (Some e, st1) \<Rightarrow> (Some e, st1)
      | (None, st1) \<Rightarrow>
          (case wrapper st1 of
             None \<Rightarrow> (Some TypeError, st1)
           | Some w \<Rightarrow> (None, st1\<lparr>wrapper := Some (w\<lparr>popoverOpened := True\<rparr>)\<rparr>)))"

text \<open>\<open>close\<close> (lines 258-263 and 454-459).\<close>

definition close_popover :: "popover \<Rightarrow> error option \<times> popover" where
  "close_popover st =
     (case wrapper st of
        None \<Rightarrow> (Some TypeError, st)
      | Some w \<Rightarrow>
          (None, fold clearConfirmationState (itemEls st)
                   (st\<lparr>wrapper := Some (w\<lparr>popoverOpened := False\<rparr>)\<rparr>)))"

definition opened :: "popover \<Rightarrow> bool" where
  "opened st = (case wrapper st of None \<Rightarrow> False | Some w \<Rightarrow> popoverOpened w)"

section \<open>The search field, local variant\<close>

text \<open>\<open>String.prototype.trim\<close>: the white space and line terminators below 256.\<close>

definition is_white_space :: "char \<Rightarrow> bool" where
  "is_white_space c = (c \<in> set [CHR 0x09, CHR 0x0A, CHR 0x0B, CHR 0x0C, CHR 0x0D, CHR 0x20, CHR 0xA0])"

definition trim :: "string \<Rightarrow> string" where
  "trim s = rev (dropWhile is_white_space (rev (dropWhile is_white_space s)))"

text \<open>The class \<open>[.*+?^${}()|[\]\\]\<close> of line 320 (and 119).\<close>

definition is_regex_special :: "char \<Rightarrow> bool" where
  "is_regex_special c = (c \<in> set (''.*+?^${}()|[]'' @ [CHR 0x5C]))"

text \<open>\<open>inputValue.replace(/[.*+?^${}()|[\]\\]/g, '\\$&')\<close>: a backslash before each special.\<close>

definition escapeValue :: "string \<Rightarrow> string" where
  "escapeValue s = concat (map (\<lambda>c. if is_regex_special c then [CHR 0x5C, c] else [c]) s)"

text \<open>
  The fragment of the pattern language that line 321 can build: the assertion \<open>\b\<close>, a
  backslash before a special character (an identity escape, matching that character) and
  any other character standing for itself. \<open>parse_pattern\<close> is \<open>None\<close> on every other
  pattern; lemma \<open>parse_keydown_pattern\<close> shows the handler never builds one.
\<close>

datatype pattern_term = WordBoundary | PatternChar char

fun parse_pattern :: "string \<Rightarrow> pattern_term list option" where
  "parse_pattern [] = Some []"
| "parse_pattern [c] = (if is_regex_special c then None else Some [PatternChar c])"
| "parse_pattern (c # d # ds) =
     (if c = CHR 0x5C then
        (if d = CHR ''b'' then map_option ((#) WordBoundary) (parse_pattern ds)
         else if is_regex_special d then map_option ((#) (PatternChar d)) (parse_pattern ds)
         else None)
      else if is_regex_special c then None
      else map_option ((#) (PatternChar c)) (parse_pattern (d # ds)))"

text \<open>
  Matching under the flag \<open>i\<close> without \<open>u\<close>: two code units agree when their
  canonical forms (the upper-case mapping, where that is a single code unit) agree. Below
  256 the mapping moves a-z and the accented lower-case letters; it takes \<open>0xB5\<close> and
  \<open>0xFF\<close> to code units above 255 that no other code unit below 256 reaches, so leaving
  them fixed gives the same comparisons. Word characters are \<open>[A-Za-z0-9_]\<close>.
\<close>

definition upper_case_table :: "(char \<times> char) list" where
  "upper_case_table =
     zip (''abcdefghijklmnopqrstuvwxyz'' @
          [CHR 0xE0, CHR 0xE1, CHR 0xE2, CHR 0xE3, CHR 0xE4, CHR 0xE5, CHR 0xE6, CHR 0xE7,
           CHR 0xE8, CHR 0xE9, CHR 0xEA, CHR 0xEB, CHR 0xEC, CHR 0xED, CHR 0xEE, CHR 0xEF,
           CHR 0xF0, CHR 0xF1, CHR 0xF2, CHR 0xF3, CHR 0xF4, CHR 0xF5, CHR 0xF6,
           CHR 0xF8, CHR 0xF9, CHR 0xFA, CHR 0xFB, CHR 0xFC, CHR 0xFD, CHR 0xFE])
         (''ABCDEFGHIJKLMNOPQRSTUVWXYZ'' @
          [CHR 0xC0, CHR 0xC1, CHR 0xC2, CHR 0xC3, CHR 0xC4, CHR 0xC5, CHR 0xC6, CHR 0xC7,
           CHR 0xC8, CHR 0xC9, CHR 0xCA, CHR 0xCB, CHR 0xCC, CHR 0xCD, CHR 0xCE, CHR 0xCF,
           CHR 0xD0, CHR 0xD1, CHR 0xD2, CHR 0xD3, CHR 0xD4, CHR 0xD5, CHR 0xD6,
           CHR 0xD8, CHR 0xD9, CHR 0xDA, CHR 0xDB, CHR 0xDC, CHR 0xDD, CHR 0xDE])"

definition canonicalize :: "char \<Rightarrow> char" where
  "canonicalize c = (case map_of upper_case_table c of Some u \<Rightarrow> u | None \<Rightarrow> c)"

definition is_word_char :: "char \<Rightarrow> bool" where
  "is_word_char c =
     (c \<in> set ''abcdefghijklmnopqrstuvwxyzABCDEFGHIJKLMNOPQRSTUVWXYZ0123456789_'')"

text \<open>\<open>\b\<close> at position \<open>e\<close> of \<open>s\<close>: exactly one side of the position is a word character.\<close>

definition is_word_boundary :: "string \<Rightarrow> nat \<Rightarrow> bool" where
  "is_word_boundary s e =
     ((0 < e \<and> e \<le> length s \<and> is_word_char (s ! (e - 1)))
      \<noteq> (e < length s \<and> is_word_char (s ! e)))"

fun match_at :: "pattern_term list \<Rightarrow> string \<Rightarrow> nat \<Rightarrow> bool" where
  "match_at [] s e = True"
| "match_at (WordBoundary # ts) s e = (is_word_boundary s e \<and> match_at ts s e)"
| "match_at (PatternChar c # ts) s e =
     (e < length s \<and> canonicalize (s ! e) = canonicalize c \<and> match_at ts s (Suc e))"

text \<open>\<open>reg.test(s)\<close> for a pattern without the flags \<open>g\<close> and \<open>y\<close>: a match at some start.\<close>

definition regex_test :: "pattern_term list \<Rightarrow> string \<Rightarrow> bool" where
  "regex_test ts s = list_ex (match_at ts s) [0..<Suc (length s)]"

text \<open>
  The keydown listener of the local variant (lines 317-323); \<open>val\<close> is
  \<open>e.target.value\<close>. \<open>stopPropagation\<close> has no effect on the popover.
\<close>

definition keydown_local :: "string \<Rightarrow> popover \<Rightarrow> error option \<times> popover" where
  "keydown_local val st =
     (let inputValue = trim val;
          escapedValue = escapeValue inputValue
      in case parse_pattern ([CHR 0x5C, CHR ''b''] @ escapedValue @ [CHR 0x5C, CHR ''b'']) of
           None \<Rightarrow> (Some SyntaxError, st)
         | Some reg \<Rightarrow>
             renderItems_local (filter (\<lambda>it. regex_test reg (label it)) (items st)) st)"

section \<open>The search field, remote variant\<close>

text \<open>
  \<open>setTimeout\<close> and \<open>clearTimeout\<close> on the queue of pending timeouts: a new timeout gets
  a fresh handle and is due \<open>delay\<close> milliseconds from now; clearing removes the timeout
  with that handle, and clearing \<open>null\<close> or a handle no longer pending does nothing.
\<close>

definition setTimeout :: "nat \<Rightarrow> popover \<Rightarrow> nat \<times> popover" where
  "setTimeout delay st =
     (next_handle st,
      st\<lparr>timers := timers st @ [(next_handle st, clock st + delay)],
         next_handle := Suc (next_handle st)\<rparr>)"

definition clearTimeout :: "nat option \<Rightarrow> popover \<Rightarrow> popover" where
  "clearTimeout ho st =
     (case ho of
        None \<Rightarrow> st
      | Some h \<Rightarrow> st\<lparr>timers := filter (\<lambda>t. fst t \<noteq> h) (timers st)\<rparr>)"

text \<open>
  The keydown listener of the remote variant (lines 116-127): the trimmed and escaped
  value is computed and not used; the call of \<open>findMatchingItem\<close> is commented out.
\<close>

definition keydown_remote :: "string \<Rightarrow> popover \<Rightarrow> popover" where
  "keydown_remote val st =
     (let inputValue = trim val;
          escapedValue = escapeValue inputValue;
          st1 = clearTimeout (interval st) st;
          (h, st2) = setTimeout 500 st1
      in st2\<lparr>interval := Some h\<rparr>)"

text \<open>
  The environment's side of the timers. \<open>elapse d\<close> lets \<open>d\<close> milliseconds pass.
  \<open>fire h\<close> runs the callback of the pending timeout \<open>h\<close> if it is due, and does
  nothing otherwise (a timeout never runs before its delay has passed). The callback
  (lines 122-126) calls \<open>getData\<close>, which starts one fetch.
\<close>

definition elapse :: "nat \<Rightarrow> popover \<Rightarrow> popover" where
  "elapse d st = st\<lparr>clock := clock st + d\<rparr>"

definition fire :: "nat \<Rightarrow> popover \<Rightarrow> popover" where
  "fire h st =
     (if list_ex (\<lambda>t. fst t = h \<and> snd t \<le> clock st) (timers st)
      then st\<lparr>timers := filter (\<lambda>t. fst t \<noteq> h) (timers st), fetches := Suc (fetches st)\<rparr>
      else st)"

datatype event = Keydown string | Elapse nat | Fire nat

fun event_step :: "event \<Rightarrow> popover \<Rightarrow> popover" where
  "event_step (Keydown val) st = keydown_remote val st"
| "event_step (Elapse d) st = elapse d st"
| "event_step (Fire h) st = fire h st"

fun run_events :: "event list \<Rightarrow> popover \<Rightarrow> popover" where
  "run_events [] st = st"
| "run_events (e # es) st = run_events es (event_step e st)"

text \<open>
  How the fetch of line 57 settles: rejected with a reason (the request or
  \<open>response.json()\<close> failed), or a parsed body, with its \<open>products\<close> if it has that
  member.
\<close>

datatype fetch_outcome = Rejected string | Parsed "product list option"

text \<open>
  The item \<open>getData\<close> builds for a product (lines 64-86). The icon constant comes from
  the package \<open>@codexteam/icons\<close> and is a parameter here; the \<open>onClick\<close> closure acts
  on the host table only and is named by \<open>AddProductRow\<close>.
\<close>

definition product_item :: "string \<Rightarrow> product \<Rightarrow> item" where
  "product_item iconDirectionLeftDown p =
     \<lparr>label = title p, icon = iconDirectionLeftDown, confirmationRequired = False,
      hideIf = None, onClick = Some (AddProductRow (title p) (category p)), content = None\<rparr>"

text \<open>
  \<open>getData\<close> from the point where the fetch has settled (lines 57-88). A rejection is
  caught by \<open>.catch\<close>, which logs it and yields \<open>undefined\<close>; \<open>result.products\<close> of
  \<open>undefined\<close>, and \<open>.map\<close> of a missing \<open>products\<close>, throw. \<open>Inl\<close> is the rejection
  of the promise that \<open>getData\<close> returns.
\<close>

definition getData :: "string \<Rightarrow> fetch_outcome \<Rightarrow> popover \<Rightarrow> (error + item list) \<times> popover" where
  "getData iconDirectionLeftDown outcome st =
     (case outcome of
        Rejected reason \<Rightarrow> (Inl TypeError, st\<lparr>console := console st @ [(''error'', reason)]\<rparr>)
      | Parsed None \<Rightarrow> (Inl TypeError, st)
      | Parsed (Some products) \<Rightarrow>
          (Inr (take 2 (items st) @ map (product_item iconDirectionLeftDown) products), st))"

text \<open>
  \<open>this.getData().then(item => { this.renderItems(item) })\<close> (lines 123-125), once the
  fetch has settled. The chain has no rejection handler: \<open>Some e\<close> is a rejection that
  nothing handles.
\<close>

definition fetch_settled :: "string \<Rightarrow> fetch_outcome \<Rightarrow> popover \<Rightarrow> error option \<times> popover" where
  "fetch_settled iconDirectionLeftDown outcome st =
     (case getData iconDirectionLeftDown outcome st of
        (Inl e, st1) \<Rightarrow> (Some e, st1)
      | (Inr arr, st1) \<Rightarrow> renderItems_remote arr st1)"

section \<open>Auxiliary definitions for the statements\<close>

text \<open>
  The rows \<open>renderItems\<close> builds for a list of items, the first stamped \<open>i\<close>, as they
  are when the loop has ended: the row of an item has lost its content element when a
  later item of the list has the same one.
\<close>

fun build_rows :: "item list \<Rightarrow> nat \<Rightarrow> row_el list" where
  "build_rows [] i = []"
| "build_rows (it # its) i = fold detach_content its (make_row it i) # build_rows its (Suc i)"

text \<open>
  What the pattern of line 321 asks of a label \<open>l\<close>: the query \<open>q\<close> stands in \<open>l\<close> at
  some position \<open>e\<close>, letter case aside, with a word boundary before it and after it.
\<close>

definition whole_word_at :: "string \<Rightarrow> string \<Rightarrow> nat \<Rightarrow> bool" where
  "whole_word_at q l e =
     (is_word_boundary l e \<and> e + length q \<le> length l
      \<and> map canonicalize (take (length q) (drop e l)) = map canonicalize q
      \<and> is_word_boundary l (e + length q))"

definition contains_whole_word :: "string \<Rightarrow> string \<Rightarrow> bool" where
  "contains_whole_word q l = list_ex (whole_word_at q l) [0..<Suc (length l)]"

text \<open>
  The filter as the specification words it (section 4.1, local fuzzy filter, and the first
  testable property): the label contains the characters of the query in order, with
  arbitrary gaps, letter case aside.
\<close>

fun is_subsequence :: "string \<Rightarrow> string \<Rightarrow> bool" where
  "is_subsequence [] l = True"
| "is_subsequence (c # q) [] = False"
| "is_subsequence (c # q) (d # l) =
     (if c = d then is_subsequence q l else is_subsequence (c # q) l)"

definition fuzzy_filter :: "string \<Rightarrow> item list \<Rightarrow> item list" where
  "fuzzy_filter q L =
     filter (\<lambda>it. is_subsequence (map canonicalize q) (map canonicalize (label it))) L"

text \<open>Items and menus for the concrete runs below.\<close>

definition menu_item :: "string \<Rightarrow> bool \<Rightarrow> nat \<Rightarrow> item" where
  "menu_item l c n =
     \<lparr>label = l, icon = [], confirmationRequired = c, hideIf = None,
      onClick = Some (HostCallback n), content = None\<rparr>"

definition example_menu :: "variant \<Rightarrow> item list \<Rightarrow> popover" where
  "example_menu v its = snd (render v (new_popover its))"

text \<open>
  The states a popover can be in: built by the constructor and then driven by the host's
  calls and the two listeners. A click reaches \<open>popoverClicked\<close> with a row only when
  that row is attached to the wrapper.
\<close>

inductive reachable :: "variant \<Rightarrow> popover \<Rightarrow> bool" for v :: variant where
  constructed: "reachable v (new_popover its)"
| rendered: "reachable v st \<Longrightarrow> reachable v (snd (render v st))"
| items_rendered: "reachable v st \<Longrightarrow> reachable v (snd (renderItems v its st))"
| clicked: "reachable v st \<Longrightarrow> r \<in> set (attached st) \<Longrightarrow>
     reachable v (snd (popoverClicked v (Row r) st))"
| opened_up: "reachable v st \<Longrightarrow> reachable v (snd (open_popover h st))"
| closed: "reachable v st \<Longrightarrow> reachable v (snd (close_popover st))"
| key_local: "v = Local \<Longrightarrow> reachable v st \<Longrightarrow> reachable v (snd (keydown_local val st))"
| key_remote: "v = Remote \<Longrightarrow> reachable v st \<Longrightarrow> reachable v (keydown_remote val st)"
| elapsed: "v = Remote \<Longrightarrow> reachable v st \<Longrightarrow> reachable v (elapse d st)"
| fired: "v = Remote \<Longrightarrow> reachable v st \<Longrightarrow> reachable v (fire k st)"
| settled: "v = Remote \<Longrightarrow> reachable v st \<Longrightarrow>
     reachable v (snd (fetch_settled ic outcome st))"

text \<open>
  An invariant of these states: every reference in \<open>itemEls\<close> is a row of the heap, every
  attached row is in \<open>itemEls\<close>, once rendered the list \<open>items\<close> is no longer than
  \<open>itemEls\<close>, and an attached row that is armed resolves to an item that requires
  confirmation.
\<close>

definition armed_needs_confirmation :: "popover \<Rightarrow> nat \<Rightarrow> bool" where
  "armed_needs_confirmation st r =
     (if hasConfirmationState r st
      then (case item_at st (dataset_index (heap st ! r)) of
              None \<Rightarrow> False
            | Some it \<Rightarrow> confirmationRequired it)
      else True)"

definition popover_inv :: "popover \<Rightarrow> bool" where
  "popover_inv st =
     (list_all (\<lambda>r. r < length (heap st)) (itemEls st)
      \<and> list_all (\<lambda>r. r \<in> set (itemEls st)) (attached st)
      \<and> (wrapper st = None \<or> length (items st) \<le> length (itemEls st))
      \<and> list_all (armed_needs_confirmation st) (attached st))"

text \<open>A menu with one row, armed by a first click.\<close>

definition armed_example :: "variant \<Rightarrow> popover" where
  "armed_example v =
     snd (popoverClicked v (Row 0) (example_menu v [menu_item ''Delete'' True 7]))"

text \<open>
  A burst of keystrokes, as a list of events: \<open>spaced g es\<close> holds when every keystroke
  of \<open>es\<close> comes less than 500 milliseconds after the keystroke before it; \<open>g\<close> is the
  time since the last keystroke, \<open>None\<close> before the first.
\<close>

fun spaced :: "nat option \<Rightarrow> event list \<Rightarrow> bool" where
  "spaced g [] = True"
| "spaced g (Keydown val # es) = ((case g of None \<Rightarrow> True | Some t \<Rightarrow> t < 500) \<and> spaced (Some 0) es)"
| "spaced g (Elapse d # es) = spaced (map_option (\<lambda>t. t + d) g) es"
| "spaced g (Fire h # es) = spaced g es"

text \<open>Every pending timeout is the one whose handle \<open>this.interval\<close> holds.\<close>

definition timers_inv :: "popover \<Rightarrow> bool" where
  "timers_inv st = list_all (\<lambda>t. interval st = Some (fst t)) (timers st)"

text \<open>One timeout is pending, set \<open>t\<close> milliseconds ago.\<close>

definition pending :: "nat \<Rightarrow> popover \<Rightarrow> bool" where
  "pending t st = (\<exists>h due. timers st = [(h, due)] \<and> due + t = clock st + 500)"

text \<open>An item with a \<open>hideIf\<close> predicate.\<close>

definition hideable_item :: item where
  "hideable_item = (menu_item ''Export'' False 7)\<lparr>hideIf := Some 3\<rparr>"

text \<open>
  The rows after \<open>open\<close> when row and item are aligned: the row of an item with a
  \<open>hideIf\<close> gets the flag the predicate returns, the others are left alone.
\<close>

fun hide_rows :: "(nat \<Rightarrow> bool) \<Rightarrow> item list \<Rightarrow> row_el list \<Rightarrow> row_el list" where
  "hide_rows h [] rows = rows"
| "hide_rows h (it # its) [] = []"
| "hide_rows h (it # its) (r # rows) =
     (case hideIf it of None \<Rightarrow> r | Some p \<Rightarrow> r\<lparr>itemHidden := h p\<rparr>) # hide_rows h its rows"

section \<open>Lemmas on rendering\<close>

lemma upt_from_Suc: "[n..<n + Suc k] = n # [Suc n..<Suc n + k]"
proof -
  have "n < n + Suc k" by simp
  then have "[n..<n + Suc k] = n # [Suc n..<n + Suc k]" by (rule upt_conv_Cons)
  then show ?thesis by simp
qed

lemma length_build_rows [simp]: "length (build_rows its i) = length its"
  by (induction its arbitrary: i) simp_all

lemma detach_content_fields [simp]:
  "dataset_index (detach_content it row) = dataset_index row"
  "itemConfirmState (detach_content it row) = itemConfirmState row"
  "itemHidden (detach_content it row) = itemHidden row"
  by (simp_all add: detach_content_def split: option.splits)

lemma fold_detach_content_fields [simp]:
  "dataset_index (fold detach_content its row) = dataset_index row"
  "itemConfirmState (fold detach_content its row) = itemConfirmState row"
  "itemHidden (fold detach_content its row) = itemHidden row"
  by (induction its arbitrary: row; simp)+

lemma nth_build_rows:
  "k < length its \<Longrightarrow>
   build_rows its i ! k = fold detach_content (drop (Suc k) its) (make_row (its ! k) (i + k))"
proof (induction its arbitrary: i k)
  case Nil
  then show ?case by simp
next
  case (Cons a its)
  then show ?case by (cases k) simp_all
qed

lemma nth_build_rows_fields:
  assumes "k < length its"
  shows "dataset_index (build_rows its i ! k) = i + k"
    and "\<not> itemConfirmState (build_rows its i ! k)"
    and "\<not> itemHidden (build_rows its i ! k)"
  using assms by (simp_all add: nth_build_rows make_row_def)

lemma stamps_build_rows: "map dataset_index (build_rows its i) = [i..<i + length its]"
proof (induction its arbitrary: i)
  case Nil
  show ?case by simp
next
  case (Cons a its)
  have u: "[i..<Suc (i + length its)] = i # [Suc i..<Suc (i + length its)]"
    by (rule upt_conv_Cons) simp
  from Cons show ?case
    by (simp add: u make_row_def del: upt_Suc)
qed

text \<open>Where no item has a content element, the rows are the rows as made.\<close>

lemma build_rows_without_content:
  "list_all (\<lambda>it. content it = None) its \<Longrightarrow>
   build_rows its i = map (\<lambda>(it, k). make_row it k) (zip its [i..<i + length its])"
proof (induction its arbitrary: i)
  case Nil
  show ?case by simp
next
  case (Cons a its)
  have f: "fold detach_content its row = row" for row
    using Cons.prems by (induction its arbitrary: row) (simp_all add: detach_content_def)
  have u: "[i..<Suc (i + length its)] = i # [Suc i..<Suc (i + length its)]"
    by (rule upt_conv_Cons) simp
  from Cons show ?case
    by (simp add: f u del: upt_Suc)
qed

lemma forEach_rows_frame [simp]:
  "items (forEach_rows its i st) = items st"
  "interval (forEach_rows its i st) = interval st"
  "invoked (forEach_rows its i st) = invoked st"
  "console (forEach_rows its i st) = console st"
  "timers (forEach_rows its i st) = timers st"
  "next_handle (forEach_rows its i st) = next_handle st"
  "clock (forEach_rows its i st) = clock st"
  "fetches (forEach_rows its i st) = fetches st"
  by (induction its arbitrary: i st; simp add: appendRow_def)+

lemma heap_forEach_rows:
  "heap (forEach_rows its i st) = map (fold detach_content its) (heap st) @ build_rows its i"
  by (induction its arbitrary: i st) (simp_all add: appendRow_def comp_def)

lemma length_heap_forEach_rows [simp]:
  "length (heap (forEach_rows its i st)) = length (heap st) + length its"
  by (simp add: heap_forEach_rows)

lemma itemEls_forEach_rows:
  "itemEls (forEach_rows its i st) = itemEls st @ [length (heap st)..<length (heap st) + length its]"
proof (induction its arbitrary: i st)
  case Nil
  then show ?case by simp
next
  case (Cons a its)
  have "[length (heap st)..<length (heap st) + length (a # its)]
      = length (heap st) # [Suc (length (heap st))..<Suc (length (heap st)) + length its]"
    using upt_from_Suc [of "length (heap st)" "length its"] by simp
  with Cons show ?case by (simp add: appendRow_def del: upt_Suc)
qed

lemma item_refs_append [simp]: "item_refs (ns @ ms) = item_refs ns @ item_refs ms"
  by (induction ns rule: item_refs.induct) simp_all

lemma item_refs_no_items [simp]: "item_refs (filter (\<lambda>n. \<not> is_item n) ns) = []"
  by (induction ns rule: item_refs.induct) simp_all

lemma attached_forEach_rows:
  "attached (forEach_rows its i st) =
     (if wrapper st = None then []
      else attached st @ [length (heap st)..<length (heap st) + length its])"
proof (induction its arbitrary: i st)
  case Nil
  then show ?case by (simp add: attached_def)
next
  case (Cons a its)
  have u: "[length (heap st)..<length (heap st) + length (a # its)]
      = length (heap st) # [Suc (length (heap st))..<Suc (length (heap st)) + length its]"
    using upt_from_Suc [of "length (heap st)" "length its"] by simp
  show ?case
  proof (cases "wrapper st")
    case None
    then show ?thesis using Cons by (simp add: appendRow_def)
  next
    case (Some w)
    then show ?thesis using Cons u by (simp add: appendRow_def attached_def del: upt_Suc)
  qed
qed

lemma opened_forEach_rows [simp]: "opened (forEach_rows its i st) = opened st"
  by (induction its arbitrary: i st) (auto simp add: appendRow_def opened_def split: option.splits)

lemma wrapper_forEach_rows_None [simp]:
  "(wrapper (forEach_rows its i st) = None) = (wrapper st = None)"
  by (induction its arbitrary: i st) (simp_all add: appendRow_def)

lemma nth_upt_suffix: "map ((!) (xs @ ys)) [length xs..<length xs + length ys] = ys"
proof -
  have "[length xs..<length xs + length ys] = map (\<lambda>i. i + length xs) [0..<length ys]"
    by (simp add: map_add_upt add.commute)
  then have "map ((!) (xs @ ys)) [length xs..<length xs + length ys] = map ((!) ys) [0..<length ys]"
    by (simp add: comp_def nth_append)
  also have "\<dots> = ys"
    by (rule map_nth)
  finally show ?thesis .
qed

lemma attached_removeItemEls [simp]:
  "attached (st\<lparr>wrapper := Some (removeItemEls w)\<rparr>) = []"
  by (simp add: attached_def removeItemEls_def)

lemma renderItems_fst: "wrapper st = Some w \<Longrightarrow> fst (renderItems v its st) = None"
  by (cases v) (simp_all add: renderItems_remote_def renderItems_local_def)

lemma attached_renderItems:
  "wrapper st = Some w \<Longrightarrow>
   attached (snd (renderItems v its st)) = [length (heap st)..<length (heap st) + length its]"
  by (cases v) (simp_all add: renderItems_remote_def renderItems_local_def attached_forEach_rows)

lemma heap_renderItems:
  "heap (snd (renderItems v its st)) =
     (if wrapper st = None then heap st
      else map (fold detach_content its) (heap st) @ build_rows its 0)"
  by (cases v) (auto simp add: renderItems_remote_def renderItems_local_def heap_forEach_rows
      split: option.splits)

lemma itemEls_renderItems:
  "itemEls (snd (renderItems v its st)) =
     itemEls st @ (if wrapper st = None then []
                   else [length (heap st)..<length (heap st) + length its])"
  by (cases v) (auto simp add: renderItems_remote_def renderItems_local_def itemEls_forEach_rows
      split: option.splits)

lemma items_renderItems_remote [simp]: "items (snd (renderItems_remote its st)) = its"
  by (simp add: renderItems_remote_def Let_def split: option.splits)

lemma items_renderItems_local [simp]: "items (snd (renderItems_local its st)) = items st"
  by (simp add: renderItems_local_def split: option.splits)

lemma attached_rows_renderItems:
  assumes "wrapper st = Some w"
  shows "attached_rows (snd (renderItems v its st)) = build_rows its 0"
proof -
  let ?old = "map (fold detach_content its) (heap st)"
  have "attached_rows (snd (renderItems v its st))
      = map ((!) (?old @ build_rows its 0))
          [length ?old..<length ?old + length (build_rows its 0)]"
    using assms by (simp add: attached_rows_def attached_renderItems [OF assms] heap_renderItems)
  then show ?thesis by (simp only: nth_upt_suffix)
qed

section \<open>Lemmas on the pattern of the local search field\<close>

lemma backslash_special: "is_regex_special (CHR 0x5C)"
  by (simp add: is_regex_special_def)

lemma b_not_special: "\<not> is_regex_special (CHR ''b'')"
  by (simp add: is_regex_special_def)

lemma parse_plain: "\<not> is_regex_special c \<Longrightarrow>
    parse_pattern (c # xs) = map_option ((#) (PatternChar c)) (parse_pattern xs)"
  using backslash_special by (cases xs) auto

lemma parse_escaped: "is_regex_special d \<Longrightarrow>
    parse_pattern (CHR 0x5C # d # ds) = map_option ((#) (PatternChar d)) (parse_pattern ds)"
  using b_not_special by auto

text \<open>Escaping makes every character of the query a literal of the pattern.\<close>

lemma parse_escapeValue:
  "parse_pattern (escapeValue q @ rest) = map_option ((@) (map PatternChar q)) (parse_pattern rest)"
proof (induction q)
  case Nil
  show ?case by (simp add: escapeValue_def option.map_ident)
next
  case (Cons c q)
  have step: "escapeValue (c # q)
      = (if is_regex_special c then [CHR 0x5C, c] else [c]) @ escapeValue q"
    by (simp add: escapeValue_def)
  show ?case
  proof (cases "is_regex_special c")
    case True
    then show ?thesis using Cons parse_escaped [OF True]
      by (simp add: step option.map_comp comp_def del: parse_pattern.simps)
  next
    case False
    then show ?thesis using Cons parse_plain [OF False]
      by (simp add: step option.map_comp comp_def del: parse_pattern.simps)
  qed
qed

lemma parse_keydown_pattern:
  "parse_pattern (CHR 0x5C # CHR ''b'' # escapeValue q @ [CHR 0x5C, CHR ''b''])
     = Some (WordBoundary # map PatternChar q @ [WordBoundary])"
proof -
  have "parse_pattern (escapeValue q @ [CHR 0x5C, CHR ''b''])
      = Some (map PatternChar q @ [WordBoundary])"
    by (simp add: parse_escapeValue)
  then show ?thesis by simp
qed

lemma match_at_chars:
  "e \<le> length s \<Longrightarrow>
   match_at (map PatternChar q @ ts) s e =
     (e + length q \<le> length s
      \<and> map canonicalize (take (length q) (drop e s)) = map canonicalize q
      \<and> match_at ts s (e + length q))"
proof (induction q arbitrary: e)
  case Nil
  then show ?case by simp
next
  case (Cons c q)
  show ?case
  proof (cases "e < length s")
    case True
    then have d: "drop e s = s ! e # drop (Suc e) s"
      by (simp add: Cons_nth_drop_Suc)
    from True have "Suc e \<le> length s" by simp
    from Cons.IH [OF this] True show ?thesis
      by (auto simp add: d)
  next
    case False
    then show ?thesis by simp
  qed
qed

lemma regex_test_keydown_pattern:
  "regex_test (WordBoundary # map PatternChar q @ [WordBoundary]) l = contains_whole_word q l"
proof -
  have "\<And>e. e \<le> length l \<Longrightarrow>
      match_at (WordBoundary # map PatternChar q @ [WordBoundary]) l e = whole_word_at q l e"
    using match_at_chars [of _ l q "[WordBoundary]"]
    by (auto simp add: whole_word_at_def)
  then show ?thesis
    by (auto simp add: regex_test_def contains_whole_word_def list_ex_iff less_Suc_eq_le)
qed

lemma boundary_in_range: "is_word_boundary l e \<Longrightarrow> e \<le> length l"
  by (auto simp add: is_word_boundary_def)

lemma whole_word_at_empty: "whole_word_at [] l e = is_word_boundary l e"
  using boundary_in_range by (auto simp add: whole_word_at_def)

lemma boundary_has_word_char:
  "is_word_boundary l e \<Longrightarrow> list_ex is_word_char l"
  by (auto simp add: is_word_boundary_def list_ex_iff intro: nth_mem)

lemma length_takeWhile_short:
  "\<exists>x\<in>set l. \<not> P x \<Longrightarrow> length (takeWhile P l) < length l"
  by (induction l) auto

lemma first_word_char_boundary:
  "list_ex is_word_char l \<Longrightarrow>
   is_word_boundary l (length (takeWhile (\<lambda>c. \<not> is_word_char c) l))"
proof -
  let ?k = "length (takeWhile (\<lambda>c. \<not> is_word_char c) l)"
  assume "list_ex is_word_char l"
  then have k: "?k < length l"
    by (simp add: list_ex_iff length_takeWhile_short)
  then have a: "is_word_char (l ! ?k)"
    using nth_length_takeWhile [of "\<lambda>c. \<not> is_word_char c" l] by simp
  have b: "0 < ?k \<Longrightarrow> \<not> is_word_char (l ! (?k - 1))"
  proof -
    assume "0 < ?k"
    then have "?k - 1 < ?k" by simp
    then have "\<not> is_word_char (takeWhile (\<lambda>c. \<not> is_word_char c) l ! (?k - 1))"
      using nth_mem set_takeWhileD by fastforce
    moreover have "takeWhile (\<lambda>c. \<not> is_word_char c) l ! (?k - 1) = l ! (?k - 1)"
      using \<open>?k - 1 < ?k\<close> by (rule takeWhile_nth)
    ultimately show ?thesis by simp
  qed
  show ?thesis using k a b by (auto simp add: is_word_boundary_def)
qed

text \<open>The empty query keeps the labels that have a word boundary, that is a word character.\<close>

lemma contains_whole_word_empty: "contains_whole_word [] l = list_ex is_word_char l"
proof
  assume "contains_whole_word [] l"
  then show "list_ex is_word_char l"
    by (auto simp add: contains_whole_word_def whole_word_at_empty list_ex_iff
        dest!: boundary_has_word_char)
next
  assume h: "list_ex is_word_char l"
  have "length (takeWhile (\<lambda>c. \<not> is_word_char c) l) \<le> length l"
    by (rule length_takeWhile_le)
  with first_word_char_boundary [OF h] show "contains_whole_word [] l"
    by (auto simp add: contains_whole_word_def whole_word_at_empty list_ex_iff less_Suc_eq_le
        simp del: upt_Suc)
qed

lemma keydown_local_eq:
  "keydown_local val st =
     renderItems Local (filter (\<lambda>it. contains_whole_word (trim val) (label it)) (items st)) st"
  using parse_keydown_pattern [of "trim val"]
  by (simp add: keydown_local_def regex_test_keydown_pattern del: parse_pattern.simps)

lemma attached_rows_keydown_local:
  "wrapper st = Some w \<Longrightarrow>
   attached_rows (snd (keydown_local val st))
     = build_rows (filter (\<lambda>it. contains_whole_word (trim val) (label it)) (items st)) 0"
  by (simp only: keydown_local_eq attached_rows_renderItems)

section \<open>Evaluation of the concrete runs\<close>

lemma label_menu_item [simp]: "label (menu_item l c n) = l"
  by (simp add: menu_item_def)

lemmas model_defs = new_popover_def render_def renderItems_remote_def renderItems_local_def
  removeItemEls_def appendRow_def detach_content_def make_row_def attached_def attached_rows_def
  popoverClicked_remote_def popoverClicked_local_def item_at_def call_onClick_def
  hasConfirmationState_def setConfirmationState_def example_menu_def

lemmas match_defs = trim_def is_white_space_def contains_whole_word_def whole_word_at_def
  is_word_boundary_def is_word_char_def canonicalize_def upper_case_table_def

section \<open>Lemmas on clicks\<close>

lemma popoverClicked_variants_agree: "popoverClicked_local tg st = popoverClicked_remote tg st"
  by (cases tg) (auto simp add: popoverClicked_local_def popoverClicked_remote_def call_onClick_def
      Let_def split: option.splits)

lemma popoverClicked_eq_remote: "popoverClicked v = popoverClicked_remote"
  by (cases v) (auto simp add: fun_eq_iff popoverClicked_variants_agree)

lemma click_arms:
  assumes "item_at st (dataset_index (heap st ! r)) = Some it"
    and "confirmationRequired it" and "\<not> hasConfirmationState r st"
  shows "popoverClicked v (Row r) st = (None, setConfirmationState r st)"
  using assms by (simp add: popoverClicked_eq_remote popoverClicked_remote_def)

lemma click_fires:
  assumes "item_at st (dataset_index (heap st ! r)) = Some it"
    and "\<not> confirmationRequired it \<or> hasConfirmationState r st"
    and "onClick it = Some cb"
  shows "popoverClicked v (Row r) st = (None, st\<lparr>invoked := invoked st @ [cb]\<rparr>)"
  using assms by (auto simp add: popoverClicked_eq_remote popoverClicked_remote_def call_onClick_def)

lemma click_without_onClick:
  assumes "item_at st (dataset_index (heap st ! r)) = Some it" and "onClick it = None"
  shows "popoverClicked v (Row r) st =
     (if confirmationRequired it \<and> \<not> hasConfirmationState r st
      then (None, setConfirmationState r st) else (Some TypeError, st))"
  using assms by (auto simp add: popoverClicked_eq_remote popoverClicked_remote_def call_onClick_def)

lemma click_unresolved:
  assumes "item_at st (dataset_index (heap st ! r)) = None"
  shows "popoverClicked v (Row r) st = (Some TypeError, st)"
  using assms by (auto simp add: popoverClicked_eq_remote popoverClicked_remote_def call_onClick_def)

text \<open>What a click can change: the confirmation flag of the clicked row and the calls.\<close>

lemma click_cases:
  "snd (popoverClicked v tg st) = st
   \<or> (\<exists>r. tg = Row r \<and> snd (popoverClicked v tg st) = setConfirmationState r st)
   \<or> (\<exists>cb. snd (popoverClicked v tg st) = st\<lparr>invoked := invoked st @ [cb]\<rparr>)"
  by (cases tg)
     (auto simp add: popoverClicked_eq_remote popoverClicked_remote_def call_onClick_def
        Let_def split: option.splits)

lemma setConfirmationState_frame [simp]:
  "items (setConfirmationState r st) = items st"
  "wrapper (setConfirmationState r st) = wrapper st"
  "itemEls (setConfirmationState r st) = itemEls st"
  "invoked (setConfirmationState r st) = invoked st"
  "timers (setConfirmationState r st) = timers st"
  "length (heap (setConfirmationState r st)) = length (heap st)"
  "attached (setConfirmationState r st) = attached st"
  by (simp_all add: setConfirmationState_def attached_def)

lemma setConfirmationState_index [simp]:
  "dataset_index (heap (setConfirmationState r st) ! k) = dataset_index (heap st ! k)"
  by (cases "k = r"; cases "r < length (heap st)")
     (simp_all add: setConfirmationState_def list_update_beyond not_less)

lemma click_frame:
  "items (snd (popoverClicked v tg st)) = items st"
  "wrapper (snd (popoverClicked v tg st)) = wrapper st"
  "itemEls (snd (popoverClicked v tg st)) = itemEls st"
  "length (heap (snd (popoverClicked v tg st))) = length (heap st)"
  "dataset_index (heap (snd (popoverClicked v tg st)) ! k) = dataset_index (heap st ! k)"
  "attached (snd (popoverClicked v tg st)) = attached st"
  using click_cases [of v tg st] by (auto simp add: attached_def)

section \<open>Lemmas on opening and closing\<close>

lemma set_hidden_frame [simp]:
  "items (set_hidden r b st) = items st"
  "wrapper (set_hidden r b st) = wrapper st"
  "itemEls (set_hidden r b st) = itemEls st"
  "invoked (set_hidden r b st) = invoked st"
  "timers (set_hidden r b st) = timers st"
  "length (heap (set_hidden r b st)) = length (heap st)"
  "attached (set_hidden r b st) = attached st"
  by (simp_all add: set_hidden_def attached_def)

lemma set_hidden_rows [simp]:
  "dataset_index (heap (set_hidden r b st) ! k) = dataset_index (heap st ! k)"
  "itemConfirmState (heap (set_hidden r b st) ! k) = itemConfirmState (heap st ! k)"
  by (cases "k = r"; cases "r < length (heap st)";
      simp add: set_hidden_def list_update_beyond not_less)+

lemma forEach_hideIf_frame [simp]:
  "items (snd (forEach_hideIf h its i st)) = items st"
  "wrapper (snd (forEach_hideIf h its i st)) = wrapper st"
  "itemEls (snd (forEach_hideIf h its i st)) = itemEls st"
  "invoked (snd (forEach_hideIf h its i st)) = invoked st"
  "length (heap (snd (forEach_hideIf h its i st))) = length (heap st)"
  "attached (snd (forEach_hideIf h its i st)) = attached st"
  by (induction h its i st rule: forEach_hideIf.induct; simp split: option.splits)+

lemma forEach_hideIf_rows [simp]:
  "dataset_index (heap (snd (forEach_hideIf h its i st)) ! k) = dataset_index (heap st ! k)"
  "itemConfirmState (heap (snd (forEach_hideIf h its i st)) ! k) = itemConfirmState (heap st ! k)"
  by (induction h its i st rule: forEach_hideIf.induct; simp split: option.splits)+

lemma forEach_hideIf_ok:
  "i + length its \<le> length (itemEls st) \<Longrightarrow> fst (forEach_hideIf h its i st) = None"
  by (induction h its i st rule: forEach_hideIf.induct) (auto split: option.splits)

lemma open_popover_frame [simp]:
  "items (snd (open_popover h st)) = items st"
  "itemEls (snd (open_popover h st)) = itemEls st"
  "invoked (snd (open_popover h st)) = invoked st"
  "length (heap (snd (open_popover h st))) = length (heap st)"
  "attached (snd (open_popover h st)) = attached st"
  "dataset_index (heap (snd (open_popover h st)) ! k) = dataset_index (heap st ! k)"
  "itemConfirmState (heap (snd (open_popover h st)) ! k) = itemConfirmState (heap st ! k)"
  "(wrapper (snd (open_popover h st)) = None) = (wrapper st = None)"
  by (cases "forEach_hideIf h (items st) 0 st"; cases "fst (forEach_hideIf h (items st) 0 st)";
      cases "wrapper st";
      use forEach_hideIf_frame [of h "items st" 0 st] forEach_hideIf_rows [of h "items st" 0 st k] in
        \<open>auto simp add: open_popover_def attached_def\<close>)+

lemma open_popover_ok:
  assumes "wrapper st = Some w" and "length (items st) \<le> length (itemEls st)"
  shows "fst (open_popover h st) = None" and "opened (snd (open_popover h st))"
proof -
  have f: "fst (forEach_hideIf h (items st) 0 st) = None"
    using assms by (simp add: forEach_hideIf_ok)
  have w: "wrapper (snd (forEach_hideIf h (items st) 0 st)) = Some w"
    using assms by simp
  show "fst (open_popover h st) = None"
    using f w by (cases "forEach_hideIf h (items st) 0 st") (simp add: open_popover_def)
  show "opened (snd (open_popover h st))"
    using f w by (cases "forEach_hideIf h (items st) 0 st") (simp add: open_popover_def opened_def)
qed

lemma clear_frame [simp]:
  "items (fold clearConfirmationState rs st) = items st"
  "wrapper (fold clearConfirmationState rs st) = wrapper st"
  "itemEls (fold clearConfirmationState rs st) = itemEls st"
  "invoked (fold clearConfirmationState rs st) = invoked st"
  "length (heap (fold clearConfirmationState rs st)) = length (heap st)"
  "attached (fold clearConfirmationState rs st) = attached st"
  by (induction rs arbitrary: st; simp add: clearConfirmationState_def attached_def)+

lemma clear_index [simp]:
  "dataset_index (heap (fold clearConfirmationState rs st) ! k) = dataset_index (heap st ! k)"
proof (induction rs arbitrary: st)
  case Nil
  show ?case by simp
next
  case (Cons r rs)
  have "dataset_index (heap (clearConfirmationState r st) ! k) = dataset_index (heap st ! k)"
    by (cases "k = r"; cases "r < length (heap st)")
       (simp_all add: clearConfirmationState_def list_update_beyond not_less)
  with Cons show ?case by simp
qed

lemma clear_flag:
  "k < length (heap st) \<Longrightarrow>
   itemConfirmState (heap (fold clearConfirmationState rs st) ! k)
     = (k \<notin> set rs \<and> itemConfirmState (heap st ! k))"
proof (induction rs arbitrary: st)
  case Nil
  show ?case by simp
next
  case (Cons r rs)
  have l: "k < length (heap (clearConfirmationState r st))"
    using Cons.prems by (simp add: clearConfirmationState_def)
  have "itemConfirmState (heap (clearConfirmationState r st) ! k)
      = (k \<noteq> r \<and> itemConfirmState (heap st ! k))"
    using Cons.prems by (cases "k = r") (simp_all add: clearConfirmationState_def)
  with Cons.IH [OF l] show ?case by auto
qed

lemma close_popover_frame [simp]:
  "items (snd (close_popover st)) = items st"
  "itemEls (snd (close_popover st)) = itemEls st"
  "invoked (snd (close_popover st)) = invoked st"
  "length (heap (snd (close_popover st))) = length (heap st)"
  "attached (snd (close_popover st)) = attached st"
  "dataset_index (heap (snd (close_popover st)) ! k) = dataset_index (heap st ! k)"
  "(wrapper (snd (close_popover st)) = None) = (wrapper st = None)"
  by (cases "wrapper st"; simp add: close_popover_def attached_def)+

lemma close_popover_ok:
  assumes "wrapper st = Some w"
  shows "fst (close_popover st) = None" and "\<not> opened (snd (close_popover st))"
    and "k < length (heap st) \<Longrightarrow> k \<in> set (itemEls st) \<Longrightarrow>
         \<not> hasConfirmationState k (snd (close_popover st))"
  using assms by (simp_all add: close_popover_def opened_def hasConfirmationState_def clear_flag)

section \<open>The invariant\<close>

lemma inv_cong:
  assumes "items st' = items st" and "itemEls st' = itemEls st" and "attached st' = attached st"
    and "length (heap st') = length (heap st)"
    and "(wrapper st' = None) = (wrapper st = None)"
    and "\<And>k. dataset_index (heap st' ! k) = dataset_index (heap st ! k)"
    and "\<And>k. itemConfirmState (heap st' ! k) = itemConfirmState (heap st ! k)"
  shows "popover_inv st' = popover_inv st"
  using assms
  by (simp add: popover_inv_def armed_needs_confirmation_def hasConfirmationState_def item_at_def
      cong: list.pred_cong)

lemma inv_new: "popover_inv (new_popover its)"
  by (simp add: popover_inv_def new_popover_def attached_def)

lemma build_rows_unarmed:
  "k < length its \<Longrightarrow> \<not> itemConfirmState (build_rows its i ! k)"
  by (simp add: nth_build_rows_fields)

lemma inv_after_rows:
  assumes h: "list_all (\<lambda>r. r < length (heap st)) (itemEls st)"
    and w: "wrapper st = Some w"
    and l: "length (items (snd (renderItems v its st))) \<le> length (itemEls st) + length its"
  shows "popover_inv (snd (renderItems v its st))"
proof -
  let ?st = "snd (renderItems v its st)"
  let ?n = "length (heap st)"
  have a: "attached ?st = [?n..<?n + length its]"
    using w by (rule attached_renderItems)
  have e: "itemEls ?st = itemEls st @ [?n..<?n + length its]"
    using w by (simp add: itemEls_renderItems)
  have p: "heap ?st = map (fold detach_content its) (heap st) @ build_rows its 0"
    using w by (simp add: heap_renderItems)
  have wn: "wrapper ?st \<noteq> None"
    using w by (cases v) (simp_all add: renderItems_remote_def renderItems_local_def)
  have i1: "list_all (\<lambda>r. r < length (heap ?st)) (itemEls ?st)"
    using h by (auto simp add: e p list_all_iff)
  have i2: "list_all (\<lambda>r. r \<in> set (itemEls ?st)) (attached ?st)"
    by (simp add: a e list_all_iff)
  have i3: "length (items ?st) \<le> length (itemEls ?st)"
    using l by (simp add: e)
  have "\<not> hasConfirmationState r ?st" if "r \<in> set (attached ?st)" for r
  proof -
    from that have r: "?n \<le> r" "r - ?n < length its"
      by (auto simp add: a)
    then have "heap ?st ! r = build_rows its 0 ! (r - ?n)"
      by (simp add: p nth_append)
    with r show ?thesis
      by (simp add: hasConfirmationState_def build_rows_unarmed)
  qed
  then have i4: "list_all (armed_needs_confirmation ?st) (attached ?st)"
    by (simp add: list_all_iff armed_needs_confirmation_def)
  show ?thesis
    using i1 i2 i3 i4 by (simp add: popover_inv_def)
qed

lemma inv_renderItems:
  assumes "popover_inv st"
  shows "popover_inv (snd (renderItems v its st))"
proof (cases "wrapper st")
  case None
  then have "attached st = []"
    by (simp add: attached_def)
  with None assms show ?thesis
    by (cases v)
       (simp_all add: renderItems_remote_def renderItems_local_def popover_inv_def attached_def)
next
  case (Some w)
  have "length (items (snd (renderItems v its st))) \<le> length (itemEls st) + length its"
    using assms Some by (cases v) (simp_all add: popover_inv_def)
  with assms Some show ?thesis
    by (intro inv_after_rows [of st w v its]) (simp_all add: popover_inv_def)
qed

lemma inv_render:
  assumes "popover_inv st"
  shows "popover_inv (snd (render v st))"
proof -
  let ?w = "\<lparr>popoverOpened = False, wrapper_children = [SearchInput]\<rparr>"
  let ?st1 = "st\<lparr>wrapper := Some ?w\<rparr>"
  have r: "render v st = renderItems v (items st) ?st1"
    by (simp add: render_def)
  have "length (items (snd (renderItems v (items st) ?st1))) \<le> length (itemEls ?st1) + length (items st)"
    by (cases v) simp_all
  moreover have "list_all (\<lambda>r. r < length (heap ?st1)) (itemEls ?st1)"
    using assms by (simp add: popover_inv_def)
  moreover have "wrapper ?st1 = Some ?w"
    by simp
  ultimately show ?thesis
    unfolding r by (intro inv_after_rows [of ?st1 ?w v "items st"])
qed

lemma click_outcomes:
  "snd (popoverClicked v (Row r) st) = st
   \<or> (snd (popoverClicked v (Row r) st) = setConfirmationState r st
      \<and> (\<exists>it. item_at st (dataset_index (heap st ! r)) = Some it \<and> confirmationRequired it))
   \<or> (\<exists>cb. snd (popoverClicked v (Row r) st) = st\<lparr>invoked := invoked st @ [cb]\<rparr>)"
  by (auto simp add: popoverClicked_eq_remote popoverClicked_remote_def call_onClick_def
        Let_def split: option.splits)

lemma setConfirmationState_flag:
  "hasConfirmationState k (setConfirmationState r st) =
     (if k = r \<and> r < length (heap st) then True else hasConfirmationState k st)"
  by (cases "k = r"; cases "r < length (heap st)")
     (simp_all add: setConfirmationState_def hasConfirmationState_def list_update_beyond not_less)

lemma item_at_setConfirmationState [simp]:
  "item_at (setConfirmationState r st) i = item_at st i"
  by (simp add: item_at_def)

lemma inv_click:
  assumes "popover_inv st"
  shows "popover_inv (snd (popoverClicked v (Row r) st))"
  using click_outcomes [of v r st]
proof (elim disjE conjE exE)
  assume "snd (popoverClicked v (Row r) st) = st"
  with assms show ?thesis by simp
next
  fix it
  assume s: "snd (popoverClicked v (Row r) st) = setConfirmationState r st"
    and i: "item_at st (dataset_index (heap st ! r)) = Some it" "confirmationRequired it"
  have "armed_needs_confirmation (setConfirmationState r st) k"
    if "armed_needs_confirmation st k" for k
    using that i
    by (auto simp add: armed_needs_confirmation_def setConfirmationState_flag split: if_splits)
  with assms show ?thesis
    by (auto simp add: s popover_inv_def list_all_iff)
next
  fix cb
  assume s: "snd (popoverClicked v (Row r) st) = st\<lparr>invoked := invoked st @ [cb]\<rparr>"
  have "popover_inv (st\<lparr>invoked := invoked st @ [cb]\<rparr>) = popover_inv st"
    by (rule inv_cong) (simp_all add: attached_def)
  with assms s show ?thesis by simp
qed

lemma inv_open:
  assumes "popover_inv st"
  shows "popover_inv (snd (open_popover h st))"
proof -
  have "popover_inv (snd (open_popover h st)) = popover_inv st"
    by (rule inv_cong) simp_all
  with assms show ?thesis by simp
qed

lemma inv_close:
  assumes "popover_inv st"
  shows "popover_inv (snd (close_popover st))"
proof (cases "wrapper st")
  case None
  with assms show ?thesis by (simp add: close_popover_def)
next
  case (Some w)
  have "\<not> hasConfirmationState k (snd (close_popover st))" if "k \<in> set (attached st)" for k
  proof -
    from that assms have "k \<in> set (itemEls st)" "k < length (heap st)"
      by (auto simp add: popover_inv_def list_all_iff)
    then show ?thesis using close_popover_ok(3) [OF Some] by simp
  qed
  then have "list_all (armed_needs_confirmation (snd (close_popover st))) (attached st)"
    by (simp add: list_all_iff armed_needs_confirmation_def)
  with assms show ?thesis
    by (simp add: popover_inv_def)
qed

lemma inv_keydown_local: "popover_inv st \<Longrightarrow> popover_inv (snd (keydown_local val st))"
  by (simp only: keydown_local_eq inv_renderItems)

lemma inv_timer_steps:
  "popover_inv (keydown_remote val st) = popover_inv st"
  "popover_inv (elapse d st) = popover_inv st"
  "popover_inv (fire k st) = popover_inv st"
  by (rule inv_cong;
      simp add: keydown_remote_def clearTimeout_def setTimeout_def elapse_def fire_def
        attached_def Let_def split: option.splits)+

lemma inv_fetch_settled:
  assumes "popover_inv st"
  shows "popover_inv (snd (fetch_settled ic outcome st))"
proof -
  have c: "popover_inv (st\<lparr>console := x\<rparr>) = popover_inv st" for x
    by (rule inv_cong) (simp_all add: attached_def)
  show ?thesis
  proof (cases outcome)
    case (Rejected reason)
    then show ?thesis using assms c by (simp add: fetch_settled_def getData_def)
  next
    case (Parsed body)
    show ?thesis
    proof (cases body)
      case None
      with Parsed assms show ?thesis by (simp add: fetch_settled_def getData_def)
    next
      case (Some products)
      with Parsed have "fetch_settled ic outcome st
          = renderItems Remote (take 2 (items st) @ map (product_item ic) products) st"
        by (simp add: fetch_settled_def getData_def)
      with assms show ?thesis by (simp only: inv_renderItems)
    qed
  qed
qed

lemma reachable_inv: "reachable v st \<Longrightarrow> popover_inv st"
proof (induction rule: reachable.induct)
  case (constructed its)
  show ?case by (rule inv_new)
next
  case (rendered st)
  then show ?case by (simp only: inv_render)
next
  case (items_rendered st its)
  then show ?case by (simp only: inv_renderItems)
next
  case (clicked st r)
  then show ?case by (simp only: inv_click)
next
  case (opened_up st h)
  then show ?case by (simp only: inv_open)
next
  case (closed st)
  then show ?case by (simp only: inv_close)
next
  case (key_local st val)
  then show ?case by (simp only: inv_keydown_local)
next
  case (key_remote st val)
  then show ?case by (simp only: inv_timer_steps)
next
  case (elapsed st d)
  then show ?case by (simp only: inv_timer_steps)
next
  case (fired st k)
  then show ?case by (simp only: inv_timer_steps)
next
  case (settled st ic outcome)
  then show ?case by (simp only: inv_fetch_settled)
qed

section \<open>Closing and reopening\<close>

lemma attached_wrapper: "r \<in> set (attached st) \<Longrightarrow> \<exists>w. wrapper st = Some w"
  by (cases "wrapper st") (simp_all add: attached_def)

lemma item_at_frame: "items st' = items st \<Longrightarrow> item_at st' i = item_at st i"
  by (simp add: item_at_def)

lemma close_clears_rows:
  assumes "popover_inv st" and "wrapper st = Some w"
  shows "list_all (\<lambda>k. \<not> hasConfirmationState k (snd (close_popover st))) (attached st)"
    and "list_all (\<lambda>k. \<not> hasConfirmationState k (snd (close_popover st))) (itemEls st)"
proof -
  have c: "\<not> hasConfirmationState k (snd (close_popover st))" if "k \<in> set (itemEls st)" for k
  proof -
    from that assms(1) have "k < length (heap st)"
      by (auto simp add: popover_inv_def list_all_iff)
    with that show ?thesis using close_popover_ok(3) [OF assms(2)] by simp
  qed
  then show "list_all (\<lambda>k. \<not> hasConfirmationState k (snd (close_popover st))) (itemEls st)"
    by (simp add: list_all_iff)
  from c assms(1) show "list_all (\<lambda>k. \<not> hasConfirmationState k (snd (close_popover st))) (attached st)"
    by (auto simp add: popover_inv_def list_all_iff)
qed

lemma reopened_row_arms_again:
  assumes i: "popover_inv st" and a: "r \<in> set (attached st)" and c: "hasConfirmationState r st"
  shows "fst (open_popover h (snd (close_popover st))) = None
       \<and> opened (snd (open_popover h (snd (close_popover st))))
       \<and> popoverClicked v (Row r) (snd (open_popover h (snd (close_popover st))))
           = (None, setConfirmationState r (snd (open_popover h (snd (close_popover st)))))
       \<and> hasConfirmationState r (setConfirmationState r (snd (open_popover h (snd (close_popover st)))))
       \<and> invoked (setConfirmationState r (snd (open_popover h (snd (close_popover st))))) = invoked st"
proof -
  let ?st1 = "snd (close_popover st)"
  let ?st2 = "snd (open_popover h ?st1)"
  from a obtain w where w: "wrapper st = Some w"
    using attached_wrapper by blast
  from i a have r: "r \<in> set (itemEls st)" "r < length (heap st)"
    by (auto simp add: popover_inv_def list_all_iff)
  from i a c obtain it where it: "item_at st (dataset_index (heap st ! r)) = Some it"
      "confirmationRequired it"
    by (auto simp add: popover_inv_def list_all_iff armed_needs_confirmation_def
        split: option.splits if_splits)
  have w1: "wrapper ?st1 = Some (w\<lparr>popoverOpened := False\<rparr>)"
    using w by (simp add: close_popover_def)
  have l: "length (items ?st1) \<le> length (itemEls ?st1)"
    using i w by (simp add: popover_inv_def)
  have o: "fst (open_popover h ?st1) = None" "opened ?st2"
    using open_popover_ok [OF w1 l] by simp_all
  have u: "\<not> hasConfirmationState r ?st2"
    using close_popover_ok(3) [OF w r(2) r(1)]
    by (simp add: hasConfirmationState_def)
  have "item_at ?st2 (dataset_index (heap ?st2 ! r)) = item_at st (dataset_index (heap st ! r))"
    by (simp add: item_at_def)
  with it have "item_at ?st2 (dataset_index (heap ?st2 ! r)) = Some it"
    by simp
  from click_arms [OF this it(2) u]
  have k: "popoverClicked v (Row r) ?st2 = (None, setConfirmationState r ?st2)" .
  have f: "hasConfirmationState r (setConfirmationState r ?st2)"
    using r by (simp add: setConfirmationState_flag)
  have n: "invoked (setConfirmationState r ?st2) = invoked st"
    by simp
  show ?thesis using o k f n by simp
qed

lemma reachable_example_menu: "reachable v (example_menu v its)"
  unfolding example_menu_def by (intro reachable.rendered reachable.constructed)

section \<open>Which item a rendered row resolves to\<close>

lemma attached_row_index:
  assumes "wrapper st = Some w" and "k < length its"
  shows "dataset_index (heap (snd (renderItems v its st)) ! (attached (snd (renderItems v its st)) ! k)) = k"
    and "attached_rows (snd (renderItems v its st)) ! k
           = fold detach_content (drop (Suc k) its) (make_row (its ! k) k)"
proof -
  have "attached (snd (renderItems v its st)) ! k = length (heap st) + k"
    using assms by (simp add: attached_renderItems)
  moreover have "heap (snd (renderItems v its st)) ! (length (heap st) + k) = build_rows its 0 ! k"
    using assms by (simp add: heap_renderItems nth_append)
  ultimately show "dataset_index (heap (snd (renderItems v its st)) ! (attached (snd (renderItems v its st)) ! k)) = k"
    using assms by (simp add: nth_build_rows_fields)
  show "attached_rows (snd (renderItems v its st)) ! k
      = fold detach_content (drop (Suc k) its) (make_row (its ! k) k)"
    using assms by (simp add: attached_rows_renderItems nth_build_rows)
qed

text \<open>
  In the remote variant the row rendered for the \<open>k\<close>-th item resolves to that item; in
  the local variant it resolves to the \<open>k\<close>-th item of the list the popover was built with.
\<close>

lemma remote_row_resolves_to_rendered_item:
  assumes "wrapper st = Some w" and "k < length its"
  shows "item_at (snd (renderItems Remote its st))
           (dataset_index (heap (snd (renderItems Remote its st))
              ! (attached (snd (renderItems Remote its st)) ! k))) = Some (its ! k)"
  using assms by (simp only: attached_row_index) (simp add: item_at_def)

lemma local_row_resolves_in_unchanged_items:
  assumes "wrapper st = Some w" and "k < length its"
  shows "item_at (snd (renderItems Local its st))
           (dataset_index (heap (snd (renderItems Local its st))
              ! (attached (snd (renderItems Local its st)) ! k))) = item_at st k"
  using assms by (simp only: attached_row_index) (simp add: item_at_def)

section \<open>What holds where rows and items are aligned\<close>

text \<open>
  In the remote variant the confirmation policy holds for the item a row was rendered
  for: the first click on the row of an item that requires confirmation arms it and calls
  nothing, the second calls the item's \<open>onClick\<close> once; a row of an item that requires
  none calls it at the first click.
\<close>

lemma remote_two_click_confirmation:
  assumes w: "wrapper st = Some w" and k: "k < length its" and cb: "onClick (its ! k) = Some cb"
  shows "confirmationRequired (its ! k) \<Longrightarrow>
           popoverClicked Remote (Row (attached (snd (renderItems Remote its st)) ! k))
               (snd (renderItems Remote its st))
             = (None, setConfirmationState (attached (snd (renderItems Remote its st)) ! k)
                        (snd (renderItems Remote its st)))
           \<and> popoverClicked Remote (Row (attached (snd (renderItems Remote its st)) ! k))
               (setConfirmationState (attached (snd (renderItems Remote its st)) ! k)
                  (snd (renderItems Remote its st)))
             = (None, (setConfirmationState (attached (snd (renderItems Remote its st)) ! k)
                        (snd (renderItems Remote its st)))\<lparr>invoked := invoked st @ [cb]\<rparr>)"
    and "\<not> confirmationRequired (its ! k) \<Longrightarrow>
           popoverClicked Remote (Row (attached (snd (renderItems Remote its st)) ! k))
               (snd (renderItems Remote its st))
             = (None, (snd (renderItems Remote its st))\<lparr>invoked := invoked st @ [cb]\<rparr>)"
proof -
  let ?st = "snd (renderItems Remote its st)"
  let ?r = "attached ?st ! k"
  have it: "item_at ?st (dataset_index (heap ?st ! ?r)) = Some (its ! k)"
    using w k by (rule remote_row_resolves_to_rendered_item)
  have r: "?r = length (heap st) + k"
    using w k by (simp add: attached_renderItems del: renderItems.simps)
  have l: "?r < length (heap ?st)"
    using w k by (simp add: r heap_renderItems del: renderItems.simps)
  have "heap ?st ! ?r = build_rows its 0 ! k"
    using w k by (simp add: r heap_renderItems nth_append del: renderItems.simps)
  then have u: "\<not> hasConfirmationState ?r ?st"
    using k by (simp add: hasConfirmationState_def nth_build_rows_fields)
  have n: "invoked ?st = invoked st"
    using w by (simp add: renderItems_remote_def Let_def)
  {
    assume c: "confirmationRequired (its ! k)"
    have a1: "popoverClicked Remote (Row ?r) ?st = (None, setConfirmationState ?r ?st)"
      using it c u by (rule click_arms)
    have it2: "item_at (setConfirmationState ?r ?st)
        (dataset_index (heap (setConfirmationState ?r ?st) ! ?r)) = Some (its ! k)"
      using it by simp
    have f: "hasConfirmationState ?r (setConfirmationState ?r ?st)"
      using l by (simp add: setConfirmationState_flag)
    have a2: "popoverClicked Remote (Row ?r) (setConfirmationState ?r ?st)
        = (None, (setConfirmationState ?r ?st)\<lparr>invoked := invoked st @ [cb]\<rparr>)"
      using click_fires [OF it2 _ cb, of Remote] f n by simp
    from a1 a2
    show "popoverClicked Remote (Row ?r) ?st = (None, setConfirmationState ?r ?st)
        \<and> popoverClicked Remote (Row ?r) (setConfirmationState ?r ?st)
          = (None, (setConfirmationState ?r ?st)\<lparr>invoked := invoked st @ [cb]\<rparr>)"
      by simp
  }
  {
    assume c: "\<not> confirmationRequired (its ! k)"
    show "popoverClicked Remote (Row ?r) ?st = (None, ?st\<lparr>invoked := invoked st @ [cb]\<rparr>)"
      using click_fires [OF it _ cb, of Remote] c n by simp
  }
qed

lemma length_hide_rows [simp]: "length (hide_rows h its rows) = length rows"
  by (induction h its rows rule: hide_rows.induct) simp_all

lemma hide_rows_idem: "hide_rows h its (hide_rows h its rows) = hide_rows h its rows"
  by (induction h its rows rule: hide_rows.induct) (simp_all split: option.splits)

lemma forEach_hideIf_aligned:
  assumes "itemEls st = [0..<length (heap st)]" and "i + length its \<le> length (heap st)"
  shows "forEach_hideIf h its i st
     = (None, st\<lparr>heap := take i (heap st) @ hide_rows h its (drop i (heap st))\<rparr>)"
  using assms
proof (induction its arbitrary: i st)
  case Nil
  show ?case by simp
next
  case (Cons it its)
  from Cons.prems have i: "i < length (heap st)" by simp
  then have d: "drop i (heap st) = heap st ! i # drop (Suc i) (heap st)"
    by (simp add: Cons_nth_drop_Suc)
  have t: "take (Suc i) (heap st) = take i (heap st) @ [heap st ! i]"
    using i by (simp add: take_Suc_conv_app_nth)
  show ?case
  proof (cases "hideIf it")
    case None
    have "forEach_hideIf h its (Suc i) st
        = (None, st\<lparr>heap := take (Suc i) (heap st) @ hide_rows h its (drop (Suc i) (heap st))\<rparr>)"
      using Cons.prems by (intro Cons.IH) simp_all
    with None show ?thesis by (simp add: d t)
  next
    case (Some p)
    let ?st = "set_hidden i (h p) st"
    have e: "itemEls st ! i = i" "i < length (itemEls st)"
      using i Cons.prems(1) by simp_all
    have a: "itemEls ?st = [0..<length (heap ?st)]"
      using Cons.prems(1) by (simp add: set_hidden_def)
    have b: "Suc i + length its \<le> length (heap ?st)"
      using Cons.prems(2) by (simp add: set_hidden_def)
    have h1: "take (Suc i) (heap ?st) = take i (heap st) @ [(heap st ! i)\<lparr>itemHidden := h p\<rparr>]"
      using i by (simp add: set_hidden_def take_Suc_conv_app_nth)
    have h2: "drop (Suc i) (heap ?st) = drop (Suc i) (heap st)"
      by (simp add: set_hidden_def)
    have "forEach_hideIf h its (Suc i) ?st
        = (None, ?st\<lparr>heap := take (Suc i) (heap ?st) @ hide_rows h its (drop (Suc i) (heap ?st))\<rparr>)"
      using a b by (rule Cons.IH)
    then have "forEach_hideIf h its (Suc i) ?st
        = (None, ?st\<lparr>heap := (take i (heap st) @ [(heap st ! i)\<lparr>itemHidden := h p\<rparr>])
                                @ hide_rows h its (drop (Suc i) (heap st))\<rparr>)"
      by (simp only: h1 h2)
    moreover have "?st\<lparr>heap := x\<rparr> = st\<lparr>heap := x\<rparr>" for x
      by (simp add: set_hidden_def)
    moreover have "forEach_hideIf h (it # its) i st = forEach_hideIf h its (Suc i) ?st"
      using Some e by simp
    ultimately show ?thesis
      using Some by (simp add: d)
  qed
qed

lemma wrapper_forEach_rows:
  "wrapper st = Some w \<Longrightarrow>
   wrapper (forEach_rows its i st)
     = Some (w\<lparr>wrapper_children := wrapper_children w
               @ map ItemEl [length (heap st)..<length (heap st) + length its]\<rparr>)"
proof (induction its arbitrary: i st w)
  case Nil
  then show ?case by simp
next
  case (Cons a its)
  have u: "[length (heap st)..<Suc (length (heap st) + length its)]
      = length (heap st) # [Suc (length (heap st))..<Suc (length (heap st) + length its)]"
    by (rule upt_conv_Cons) simp
  have "wrapper (appendRow a i st)
      = Some (w\<lparr>wrapper_children := wrapper_children w @ [ItemEl (length (heap st))]\<rparr>)"
    using Cons.prems by (simp add: appendRow_def)
  from Cons.IH [OF this, of "Suc i"] show ?case
    by (simp add: u appendRow_def del: upt_Suc)
qed

lemma wrapper_example_menu:
  "wrapper (example_menu v its)
     = Some \<lparr>popoverOpened = False,
             wrapper_children = SearchInput # map ItemEl [0..<length its]\<rparr>"
  by (cases v)
     (simp_all add: example_menu_def render_def renderItems_remote_def renderItems_local_def
        new_popover_def wrapper_forEach_rows removeItemEls_def)

text \<open>
  After the first render of a new popover \<open>open\<close> does what its comment says: each row
  of an item with a \<open>hideIf\<close> gets the hidden flag the predicate returns now, the other
  rows keep theirs, and a second \<open>open\<close> under the same conditions changes nothing.
\<close>

lemma example_menu_fields:
  "heap (example_menu v its) = build_rows its 0"
  "itemEls (example_menu v its) = [0..<length its]"
  "items (example_menu v its) = its"
  by (cases v;
      simp add: example_menu_def render_def renderItems_remote_def renderItems_local_def
        new_popover_def heap_forEach_rows itemEls_forEach_rows)+

lemma open_after_first_render:
  "open_popover h (example_menu v its)
     = (None, (example_menu v its)
         \<lparr>heap := hide_rows h its (build_rows its 0),
          wrapper := Some \<lparr>popoverOpened = True,
                           wrapper_children = SearchInput # map ItemEl [0..<length its]\<rparr>\<rparr>)"
proof -
  let ?st = "example_menu v its"
  have f: "forEach_hideIf h its 0 ?st
      = (None, ?st\<lparr>heap := take 0 (heap ?st) @ hide_rows h its (drop 0 (heap ?st))\<rparr>)"
    by (rule forEach_hideIf_aligned) (simp_all add: example_menu_fields)
  show ?thesis
    using f by (simp add: open_popover_def example_menu_fields wrapper_example_menu)
qed

lemma open_twice_after_first_render:
  "open_popover h (snd (open_popover h (example_menu v its))) = open_popover h (example_menu v its)"
proof -
  define st1 where "st1 = snd (open_popover h (example_menu v its))"
  have s: "st1 = (example_menu v its)
         \<lparr>heap := hide_rows h its (build_rows its 0),
          wrapper := Some \<lparr>popoverOpened = True,
                           wrapper_children = SearchInput # map ItemEl [0..<length its]\<rparr>\<rparr>"
    by (simp add: st1_def open_after_first_render)
  have o: "open_popover h (example_menu v its) = (None, st1)"
    by (simp add: s open_after_first_render)
  have fields: "heap st1 = hide_rows h its (build_rows its 0)" "itemEls st1 = [0..<length its]"
    "items st1 = its"
    "wrapper st1 = Some \<lparr>popoverOpened = True,
                           wrapper_children = SearchInput # map ItemEl [0..<length its]\<rparr>"
    by (simp_all add: s example_menu_fields)
  have "forEach_hideIf h its 0 st1
      = (None, st1\<lparr>heap := take 0 (heap st1) @ hide_rows h its (drop 0 (heap st1))\<rparr>)"
    by (rule forEach_hideIf_aligned) (simp_all add: fields)
  then have f: "forEach_hideIf h its 0 st1 = (None, st1)"
    by (simp add: fields(1) hide_rows_idem)
  have "open_popover h st1 = (None, st1)"
    by (simp add: open_popover_def fields(3,4) f)
  with o show ?thesis
    by (simp add: st1_def [symmetric])
qed

section \<open>Lemmas on the debounce timer\<close>

lemma timers_inv_cong:
  "timers st' = timers st \<Longrightarrow> interval st' = interval st \<Longrightarrow> timers_inv st' = timers_inv st"
  by (simp add: timers_inv_def)

lemma renderItems_timers [simp]:
  "timers (snd (renderItems v its st)) = timers st"
  "interval (snd (renderItems v its st)) = interval st"
  by (cases v; simp add: renderItems_remote_def renderItems_local_def Let_def split: option.splits)+

lemma render_timers [simp]:
  "timers (snd (render v st)) = timers st"
  "interval (snd (render v st)) = interval st"
  by (simp_all add: render_def)

lemma click_timers [simp]:
  "timers (snd (popoverClicked v tg st)) = timers st"
  "interval (snd (popoverClicked v tg st)) = interval st"
  using click_cases [of v tg st] by (auto simp add: setConfirmationState_def)

lemma forEach_hideIf_timers [simp]:
  "timers (snd (forEach_hideIf h its i st)) = timers st"
  "interval (snd (forEach_hideIf h its i st)) = interval st"
  by (induction h its i st rule: forEach_hideIf.induct; simp add: set_hidden_def split: option.splits)+

lemma open_timers [simp]:
  "timers (snd (open_popover h st)) = timers st"
  "interval (snd (open_popover h st)) = interval st"
  by (cases "forEach_hideIf h (items st) 0 st"; cases "fst (forEach_hideIf h (items st) 0 st)";
      cases "wrapper st";
      use forEach_hideIf_timers [of h "items st" 0 st] forEach_hideIf_frame [of h "items st" 0 st] in
        \<open>auto simp add: open_popover_def\<close>)+

lemma clear_timers [simp]:
  "timers (fold clearConfirmationState rs st) = timers st"
  "interval (fold clearConfirmationState rs st) = interval st"
  by (induction rs arbitrary: st; simp add: clearConfirmationState_def)+

lemma close_timers [simp]:
  "timers (snd (close_popover st)) = timers st"
  "interval (snd (close_popover st)) = interval st"
  by (cases "wrapper st"; simp add: close_popover_def)+

lemma fetch_settled_timers [simp]:
  "timers (snd (fetch_settled ic outcome st)) = timers st"
  "interval (snd (fetch_settled ic outcome st)) = interval st"
  by (cases outcome; simp add: fetch_settled_def getData_def renderItems_remote_def Let_def
        split: option.splits)+

text \<open>A keystroke leaves exactly one timeout pending: the one it has just set.\<close>

lemma keydown_remote_timers:
  assumes "timers_inv st"
  shows "timers (keydown_remote val st) = [(next_handle st, clock st + 500)]"
    and "interval (keydown_remote val st) = Some (next_handle st)"
proof -
  have "timers (clearTimeout (interval st) st) = []"
  proof (cases "interval st")
    case None
    with assms show ?thesis
      by (cases "timers st") (simp_all add: timers_inv_def clearTimeout_def)
  next
    case (Some h)
    with assms have "filter (\<lambda>t. fst t \<noteq> h) (timers st) = []"
      by (auto simp add: timers_inv_def list_all_iff filter_empty_conv)
    with Some show ?thesis by (simp add: clearTimeout_def)
  qed
  moreover have "clock (clearTimeout (interval st) st) = clock st"
    "next_handle (clearTimeout (interval st) st) = next_handle st"
    by (simp_all add: clearTimeout_def split: option.splits)
  ultimately show "timers (keydown_remote val st) = [(next_handle st, clock st + 500)]"
    and "interval (keydown_remote val st) = Some (next_handle st)"
    by (simp_all add: keydown_remote_def setTimeout_def Let_def)
qed

lemma keydown_remote_frame [simp]:
  "fetches (keydown_remote val st) = fetches st"
  "clock (keydown_remote val st) = clock st"
  by (simp_all add: keydown_remote_def setTimeout_def clearTimeout_def Let_def split: option.splits)

lemma timers_inv_keydown:
  assumes "timers_inv st"
  shows "timers_inv (keydown_remote val st)"
  unfolding timers_inv_def [of "keydown_remote val st"]
  by (simp add: keydown_remote_timers [OF assms])

lemma timers_inv_fire: "timers_inv st \<Longrightarrow> timers_inv (fire k st)"
  by (auto simp add: timers_inv_def fire_def list_all_iff)

lemma timers_inv_elapse: "timers_inv st \<Longrightarrow> timers_inv (elapse d st)"
  by (simp add: timers_inv_def elapse_def)

lemma timers_inv_steps:
  "timers_inv (snd (render v st)) = timers_inv st"
  "timers_inv (snd (renderItems v its st)) = timers_inv st"
  "timers_inv (snd (popoverClicked v tg st)) = timers_inv st"
  "timers_inv (snd (open_popover h st)) = timers_inv st"
  "timers_inv (snd (close_popover st)) = timers_inv st"
  "timers_inv (snd (fetch_settled ic outcome st)) = timers_inv st"
  by (rule timers_inv_cong; simp)+

lemma timers_inv_keydown_local: "timers_inv (snd (keydown_local val st)) = timers_inv st"
  by (simp only: keydown_local_eq timers_inv_steps)

lemma reachable_timers_inv: "reachable v st \<Longrightarrow> timers_inv st"
proof (induction rule: reachable.induct)
  case (constructed its)
  show ?case by (simp add: timers_inv_def new_popover_def)
next
  case (key_remote st val)
  then show ?case by (simp only: timers_inv_keydown)
next
  case (elapsed st d)
  then show ?case by (simp only: timers_inv_elapse)
next
  case (fired st k)
  then show ?case by (simp only: timers_inv_fire)
qed (simp_all only: timers_inv_steps timers_inv_keydown_local)

lemma spaced_keydown_later:
  "spaced (Some t) (es1 @ Keydown val # es2) \<Longrightarrow> t < 500"
proof (induction es1 arbitrary: t)
  case Nil
  then show ?case by simp
next
  case (Cons e es1)
  then show ?case
  proof (cases e)
    case (Keydown x)
    with Cons.prems show ?thesis by simp
  next
    case (Elapse d)
    with Cons.prems have "spaced (Some (t + d)) (es1 @ Keydown val # es2)" by simp
    from Cons.IH [OF this] show ?thesis by simp
  next
    case (Fire k)
    with Cons.prems have "spaced (Some t) (es1 @ Keydown val # es2)" by simp
    from Cons.IH [OF this] show ?thesis .
  qed
qed

lemma quiet_after_fire:
  "timers st = [] \<Longrightarrow> 500 \<le> t \<Longrightarrow> spaced (Some t) es \<Longrightarrow>
   fetches (run_events es st) = fetches st"
proof (induction es arbitrary: t st)
  case Nil
  show ?case by simp
next
  case (Cons e es)
  show ?case
  proof (cases e)
    case (Keydown x)
    with Cons.prems show ?thesis by simp
  next
    case (Elapse d)
    have "fetches (run_events es (elapse d st)) = fetches (elapse d st)"
      using Cons.prems Elapse by (intro Cons.IH [of "elapse d st" "t + d"]) (simp_all add: elapse_def)
    with Elapse show ?thesis by (simp add: elapse_def)
  next
    case (Fire k)
    have "fire k st = st"
      using Cons.prems by (simp add: fire_def)
    with Cons Fire show ?thesis by simp
  qed
qed

lemma burst_core:
  "timers_inv st \<Longrightarrow> pending t st \<Longrightarrow> spaced (Some t) es \<Longrightarrow>
   fetches (run_events es st) \<le> fetches st + 1
   \<and> (\<forall>es1 val es2. es = es1 @ Keydown val # es2 \<longrightarrow>
         fetches (run_events (es1 @ [Keydown val]) st) = fetches st)"
proof (induction es arbitrary: t st)
  case Nil
  show ?case by simp
next
  case (Cons e es)
  show ?case
  proof (cases e)
    case (Keydown x)
    let ?st = "keydown_remote x st"
    have i: "timers_inv ?st"
      using Cons.prems(1) by (rule timers_inv_keydown)
    have p: "pending 0 ?st"
      using keydown_remote_timers(1) [OF Cons.prems(1), of x] by (simp add: pending_def)
    have s: "spaced (Some 0) es"
      using Cons.prems(3) Keydown by simp
    note ih = Cons.IH [OF i p s]
    have b1: "fetches (run_events (e # es) st) \<le> fetches st + 1"
      using ih Keydown by simp
    have b2: "fetches (run_events (es1 @ [Keydown val]) st) = fetches st"
      if d: "e # es = es1 @ Keydown val # es2" for es1 val es2
    proof (cases es1)
      case Nil
      with d Keydown show ?thesis by simp
    next
      case (Cons a es1')
      with d have "a = e" "es = es1' @ Keydown val # es2" by simp_all
      with ih Cons Keydown show ?thesis by simp
    qed
    from b1 b2 show ?thesis by blast
  next
    case (Elapse d)
    let ?st = "elapse d st"
    have i: "timers_inv ?st"
      using Cons.prems(1) by (rule timers_inv_elapse)
    have p: "pending (t + d) ?st"
      using Cons.prems(2) by (auto simp add: pending_def elapse_def)
    have s: "spaced (Some (t + d)) es"
      using Cons.prems(3) Elapse by simp
    note ih = Cons.IH [OF i p s]
    have b1: "fetches (run_events (e # es) st) \<le> fetches st + 1"
      using ih Elapse by (simp add: elapse_def)
    have b2: "fetches (run_events (es1 @ [Keydown val]) st) = fetches st"
      if d: "e # es = es1 @ Keydown val # es2" for es1 val es2
    proof (cases es1)
      case Nil
      with d Elapse show ?thesis by simp
    next
      case (Cons a es1')
      with d have "a = e" "es = es1' @ Keydown val # es2" by simp_all
      with ih Cons Elapse show ?thesis by (simp add: elapse_def)
    qed
    from b1 b2 show ?thesis by blast
  next
    case (Fire k)
    have s: "spaced (Some t) es"
      using Cons.prems(3) Fire by simp
    from Cons.prems(2) obtain h due where hd: "timers st = [(h, due)]" "due + t = clock st + 500"
      by (auto simp add: pending_def)
    show ?thesis
    proof (cases "k = h \<and> due \<le> clock st")
      case True
      with hd have t: "500 \<le> t" by simp
      have f: "fire k st = st\<lparr>timers := [], fetches := Suc (fetches st)\<rparr>"
        using True hd by (simp add: fire_def)
      have "fetches (run_events es (fire k st)) = fetches (fire k st)"
        using t s by (intro quiet_after_fire [of "fire k st" t es]) (simp_all add: f)
      then have b1: "fetches (run_events (e # es) st) \<le> fetches st + 1"
        using Fire by (simp add: f)
      have b2: "fetches (run_events (es1 @ [Keydown val]) st) = fetches st"
        if d: "e # es = es1 @ Keydown val # es2" for es1 val es2
      proof (cases es1)
        case Nil
        with d Fire show ?thesis by simp
      next
        case (Cons a es1')
        with d have "es = es1' @ Keydown val # es2" by simp
        with s have "t < 500" using spaced_keydown_later by blast
        with t show ?thesis by simp
      qed
      from b1 b2 show ?thesis by blast
    next
      case False
      then have f: "fire k st = st"
        using hd by (auto simp add: fire_def)
      note ih = Cons.IH [OF Cons.prems(1) Cons.prems(2) s]
      have b1: "fetches (run_events (e # es) st) \<le> fetches st + 1"
        using ih Fire f by simp
      have b2: "fetches (run_events (es1 @ [Keydown val]) st) = fetches st"
        if d: "e # es = es1 @ Keydown val # es2" for es1 val es2
      proof (cases es1)
        case Nil
        with d Fire show ?thesis by simp
      next
        case (Cons a es1')
        with d have "a = e" "es = es1' @ Keydown val # es2" by simp_all
        with ih Cons Fire f show ?thesis by simp
      qed
      from b1 b2 show ?thesis by blast
    qed
  qed
qed

section \<open>Theorems\<close>

text \<open>
  C1 (as amended). In the local variant a keystroke re-renders exactly the items of the
  popover's list whose label contains the trimmed query as a whole word: as a contiguous
  run of characters, letter case aside, regex metacharacters taken literally, with a word
  boundary at its start and at its end. The relative order of the list is kept: the
  attached rows are the rows \<open>renderItems\<close> builds for the items kept, in order and
  stamped from 0 (a content element that several of these items share ends in the row of
  the last of them), and the list itself is left as it was. For the empty query the
  items kept are those whose label contains a word character.
\<close>

theorem keydown_local_renders_whole_word_matches:
  assumes "wrapper st = Some w"
  shows "fst (keydown_local val st) = None
       \<and> attached_rows (snd (keydown_local val st))
           = build_rows (filter (\<lambda>it. contains_whole_word (trim val) (label it)) (items st)) 0
       \<and> map dataset_index (attached_rows (snd (keydown_local val st)))
           = [0..<length (filter (\<lambda>it. contains_whole_word (trim val) (label it)) (items st))]
       \<and> items (snd (keydown_local val st)) = items st
       \<and> filter (\<lambda>it. contains_whole_word [] (label it)) (items st)
           = filter (\<lambda>it. list_ex is_word_char (label it)) (items st)"
proof -
  let ?m = "filter (\<lambda>it. contains_whole_word (trim val) (label it)) (items st)"
  have "fst (renderItems Local ?m st) = None"
    using assms by (rule renderItems_fst)
  moreover have r: "attached_rows (snd (keydown_local val st)) = build_rows ?m 0"
    using assms by (rule attached_rows_keydown_local)
  moreover have "map dataset_index (attached_rows (snd (keydown_local val st))) = [0..<length ?m]"
    using stamps_build_rows [of ?m 0] by (simp only: r) simp
  moreover have "items (snd (renderItems Local ?m st)) = items st"
    by simp
  ultimately show ?thesis
    by (simp add: keydown_local_eq contains_whole_word_empty)
qed

theorem keydown_local_renders_witness:
  "wrapper (example_menu Local [menu_item ''Rename'' False 7, menu_item ''Copy'' False 8,
                                menu_item ''--'' False 9])
     = Some \<lparr>popoverOpened = False,
             wrapper_children = [SearchInput, ItemEl 0, ItemEl 1, ItemEl 2]\<rparr>
   \<and> attached_rows (snd (keydown_local '' copy ''
        (example_menu Local [menu_item ''Rename'' False 7, menu_item ''Copy'' False 8,
                             menu_item ''--'' False 9])))
       = [make_row (menu_item ''Copy'' False 8) 0]
   \<and> filter (\<lambda>it. contains_whole_word [] (label it))
        (items (example_menu Local [menu_item ''Rename'' False 7, menu_item ''Copy'' False 8,
                                    menu_item ''--'' False 9]))
       = [menu_item ''Rename'' False 7, menu_item ''Copy'' False 8]
   \<and> attached_rows (snd (keydown_local ''copy''
        (example_menu Local [(menu_item ''Copy'' False 7)\<lparr>content := Some 5\<rparr>,
                             (menu_item ''Copy all'' False 8)\<lparr>content := Some 5\<rparr>])))
       = [\<lparr>dataset_index = 0, row_children = [], itemConfirmState = False, itemHidden = False\<rparr>,
          \<lparr>dataset_index = 1, row_children = [ContentEl 5], itemConfirmState = False,
           itemHidden = False\<rparr>]"
proof -
  let ?L = "[menu_item ''Rename'' False 7, menu_item ''Copy'' False 8, menu_item ''--'' False 9]"
  let ?C = "[(menu_item ''Copy'' False 7)\<lparr>content := Some 5\<rparr>,
             (menu_item ''Copy all'' False 8)\<lparr>content := Some 5\<rparr>]"
  have w: "wrapper (example_menu Local ?L)
      = Some \<lparr>popoverOpened = False,
              wrapper_children = [SearchInput, ItemEl 0, ItemEl 1, ItemEl 2]\<rparr>"
    by (simp add: model_defs)
  have wc: "wrapper (example_menu Local ?C)
      = Some \<lparr>popoverOpened = False, wrapper_children = [SearchInput, ItemEl 0, ItemEl 1]\<rparr>"
    by (simp add: model_defs)
  have i: "items (example_menu Local ?L) = ?L"
    by (simp add: model_defs)
  have ic: "items (example_menu Local ?C) = ?C"
    by (simp add: model_defs)
  have t: "trim '' copy '' = ''copy''" "trim ''copy'' = ''copy''"
    by (simp_all add: trim_def is_white_space_def)
  have m: "\<not> contains_whole_word ''copy'' ''Rename''" "contains_whole_word ''copy'' ''Copy''"
    "\<not> contains_whole_word ''copy'' ''--''" "contains_whole_word ''copy'' ''Copy all''"
    by (simp_all add: match_defs)
  have e: "contains_whole_word [] ''Rename''" "contains_whole_word [] ''Copy''"
    "\<not> contains_whole_word [] ''--''"
    by (simp_all add: contains_whole_word_empty is_word_char_def)
  have lc: "label ((menu_item ''Copy'' False 7)\<lparr>content := Some 5\<rparr>) = ''Copy''"
    "label ((menu_item ''Copy all'' False 8)\<lparr>content := Some 5\<rparr>) = ''Copy all''"
    by (simp_all add: menu_item_def)
  have b: "build_rows ?C 0
      = [\<lparr>dataset_index = 0, row_children = [], itemConfirmState = False, itemHidden = False\<rparr>,
         \<lparr>dataset_index = 1, row_children = [ContentEl 5], itemConfirmState = False,
          itemHidden = False\<rparr>]"
    by (simp add: make_row_def detach_content_def menu_item_def)
  have first: "attached_rows (snd (keydown_local '' copy '' (example_menu Local ?L)))
        = [make_row (menu_item ''Copy'' False 8) 0]
      \<and> filter (\<lambda>it. contains_whole_word [] (label it)) (items (example_menu Local ?L))
        = [menu_item ''Rename'' False 7, menu_item ''Copy'' False 8]"
    using keydown_local_renders_whole_word_matches [OF w, of "'' copy ''"]
    by (simp add: i t m e is_word_char_def)
  have second: "attached_rows (snd (keydown_local ''copy'' (example_menu Local ?C)))
        = build_rows ?C 0"
    using keydown_local_renders_whole_word_matches [OF wc, of "''copy''"]
    by (simp add: ic t m lc del: build_rows.simps)
  show ?thesis
    using w first second by (simp only: b)
qed

text \<open>
  C1 as the claim states it fails. With the single item labelled Delete, typing \<open>del\<close>
  renders no row, although the label contains d, e, l in order and the claim has the item
  rendered. With the single item labelled \<open>--\<close>, which has no word character, the empty
  query renders no row, although the claim has all of the list rendered.
\<close>

theorem keydown_local_fuzzy_counterexample:
  "attached_rows (snd (keydown_local ''del'' (example_menu Local [menu_item ''Delete'' True 7])))
     \<noteq> build_rows (fuzzy_filter ''del'' [menu_item ''Delete'' True 7]) 0
   \<and> attached_rows (snd (keydown_local ''del'' (example_menu Local [menu_item ''Delete'' True 7])))
       = []
   \<and> fuzzy_filter ''del'' [menu_item ''Delete'' True 7] = [menu_item ''Delete'' True 7]
   \<and> attached_rows (snd (keydown_local '''' (example_menu Local [menu_item ''--'' False 7])))
       \<noteq> build_rows [menu_item ''--'' False 7] 0
   \<and> attached_rows (snd (keydown_local '''' (example_menu Local [menu_item ''--'' False 7])))
       = []"
proof -
  have w1: "wrapper (example_menu Local [menu_item ''Delete'' True 7])
      = Some \<lparr>popoverOpened = False, wrapper_children = [SearchInput, ItemEl 0]\<rparr>"
    by (simp add: model_defs)
  have w2: "wrapper (example_menu Local [menu_item ''--'' False 7])
      = Some \<lparr>popoverOpened = False, wrapper_children = [SearchInput, ItemEl 0]\<rparr>"
    by (simp add: model_defs)
  have i1: "items (example_menu Local [menu_item ''Delete'' True 7]) = [menu_item ''Delete'' True 7]"
    by (simp add: model_defs)
  have i2: "items (example_menu Local [menu_item ''--'' False 7]) = [menu_item ''--'' False 7]"
    by (simp add: model_defs)
  have t1: "trim ''del'' = ''del''" "trim '''' = ''''"
    by (simp_all add: trim_def is_white_space_def)
  have m1: "\<not> contains_whole_word ''del'' ''Delete''"
    by (simp add: match_defs)
  have m2: "\<not> contains_whole_word '''' ''--''"
    by (simp add: contains_whole_word_empty is_word_char_def)
  have a: "attached_rows (snd (keydown_local ''del''
      (example_menu Local [menu_item ''Delete'' True 7]))) = []"
    using attached_rows_keydown_local [OF w1, of "''del''"] m1
    by (simp add: i1 t1)
  have b: "attached_rows (snd (keydown_local ''''
      (example_menu Local [menu_item ''--'' False 7]))) = []"
    using attached_rows_keydown_local [OF w2, of "''''"] m2
    by (simp add: i2 t1)
  have c: "fuzzy_filter ''del'' [menu_item ''Delete'' True 7] = [menu_item ''Delete'' True 7]"
    by (simp add: fuzzy_filter_def canonicalize_def upper_case_table_def)
  show ?thesis by (simp add: a b c)
qed

text \<open>
  C2, at an input where the code departs from it. Local variant, items Rename and Copy:
  after the keystroke that leaves \<open>copy\<close> in the field the one attached row is the row
  of Copy, stamped 0; the click on it looks the index up in \<open>this.items\<close>, which the
  local \<open>renderItems\<close> never assigns, and invokes the \<open>onClick\<close> of Rename.
\<close>

theorem local_click_after_filter_invokes_other_item:
  "attached (snd (keydown_local ''copy''
      (example_menu Local [menu_item ''Rename'' False 7, menu_item ''Copy'' False 8]))) = [2]
   \<and> attached_rows (snd (keydown_local ''copy''
      (example_menu Local [menu_item ''Rename'' False 7, menu_item ''Copy'' False 8])))
       = [make_row (menu_item ''Copy'' False 8) 0]
   \<and> invoked (snd (popoverClicked Local (Row 2) (snd (keydown_local ''copy''
      (example_menu Local [menu_item ''Rename'' False 7, menu_item ''Copy'' False 8])))))
       = [HostCallback 7]"
proof -
  let ?L = "[menu_item ''Rename'' False 7, menu_item ''Copy'' False 8]"
  have m: "\<not> contains_whole_word ''copy'' ''Rename''" "contains_whole_word ''copy'' ''Copy''"
    by (simp_all add: match_defs)
  have t: "trim ''copy'' = ''copy''"
    by (simp add: trim_def is_white_space_def)
  have i: "items (example_menu Local ?L) = ?L"
    by (simp add: model_defs)
  have k: "keydown_local ''copy'' (example_menu Local ?L)
      = renderItems Local [menu_item ''Copy'' False 8] (example_menu Local ?L)"
    by (simp add: keydown_local_eq t i m)
  show ?thesis
    unfolding k by (simp add: model_defs menu_item_def)
qed

text \<open>
  C3, at an input where the code departs from it. In both variants a second
  \<open>renderItems\<close> leaves the row of the first render in \<open>itemEls\<close>: after rendering one
  item and then one other item, one row is attached to the wrapper and the item list has
  one entry, but \<open>itemEls\<close> has two.
\<close>

theorem renderItems_keeps_stale_itemEls:
  "itemEls (snd (renderItems Remote [menu_item ''Copy'' False 8]
      (example_menu Remote [menu_item ''Rename'' False 7]))) = [0, 1]
   \<and> attached (snd (renderItems Remote [menu_item ''Copy'' False 8]
      (example_menu Remote [menu_item ''Rename'' False 7]))) = [1]
   \<and> items (snd (renderItems Remote [menu_item ''Copy'' False 8]
      (example_menu Remote [menu_item ''Rename'' False 7]))) = [menu_item ''Copy'' False 8]
   \<and> itemEls (snd (renderItems Local [menu_item ''Copy'' False 8]
      (example_menu Local [menu_item ''Rename'' False 7]))) = [0, 1]
   \<and> attached (snd (renderItems Local [menu_item ''Copy'' False 8]
      (example_menu Local [menu_item ''Rename'' False 7]))) = [1]
   \<and> items (snd (renderItems Local [menu_item ''Copy'' False 8]
      (example_menu Local [menu_item ''Rename'' False 7]))) = [menu_item ''Rename'' False 7]"
  by (simp add: model_defs)

text \<open>
  C4, at an input where the code departs from it. Local variant, items Rename (no
  confirmation) and Delete (confirmation required): after the keystroke that leaves
  \<open>delete\<close> in the field the one attached row is the row of Delete; the first click on
  it does not arm it and invokes the \<open>onClick\<close> of Rename at once.
\<close>

theorem local_filtered_confirmation_row_not_armed:
  "attached_rows (snd (keydown_local ''delete''
      (example_menu Local [menu_item ''Rename'' False 7, menu_item ''Delete'' True 8])))
       = [make_row (menu_item ''Delete'' True 8) 0]
   \<and> invoked (snd (popoverClicked Local (Row 2) (snd (keydown_local ''delete''
      (example_menu Local [menu_item ''Rename'' False 7, menu_item ''Delete'' True 8])))))
       = [HostCallback 7]
   \<and> \<not> hasConfirmationState 2 (snd (popoverClicked Local (Row 2) (snd (keydown_local ''delete''
      (example_menu Local [menu_item ''Rename'' False 7, menu_item ''Delete'' True 8])))))"
proof -
  let ?L = "[menu_item ''Rename'' False 7, menu_item ''Delete'' True 8]"
  have m: "\<not> contains_whole_word ''delete'' ''Rename''" "contains_whole_word ''delete'' ''Delete''"
    by (simp_all add: match_defs)
  have t: "trim ''delete'' = ''delete''"
    by (simp add: trim_def is_white_space_def)
  have i: "items (example_menu Local ?L) = ?L"
    by (simp add: model_defs)
  have k: "keydown_local ''delete'' (example_menu Local ?L)
      = renderItems Local [menu_item ''Delete'' True 8] (example_menu Local ?L)"
    by (simp add: keydown_local_eq t i m)
  show ?thesis
    unfolding k by (simp add: model_defs menu_item_def)
qed

text \<open>
  C5. In every reachable state \<open>s\<close> of a rendered popover, \<open>close\<close> returns normally,
  removes the open flag of the wrapper and leaves no row with the confirmation flag,
  neither among the attached rows nor among all of \<open>itemEls\<close>. And when a row \<open>r\<close> is
  attached and armed in a reachable state, then after \<open>close\<close> and \<open>open\<close> (which
  returns normally) a click on \<open>r\<close> arms the row again and invokes no \<open>onClick\<close>.
  Both variants.
\<close>

theorem close_resets_confirmation:
  assumes "reachable v s" and "wrapper s = Some w"
    and "reachable v st" and "r \<in> set (attached st)" and "hasConfirmationState r st"
  shows "fst (close_popover s) = None
       \<and> \<not> opened (snd (close_popover s))
       \<and> list_all (\<lambda>k. \<not> hasConfirmationState k (snd (close_popover s))) (attached (snd (close_popover s)))
       \<and> list_all (\<lambda>k. \<not> hasConfirmationState k (snd (close_popover s))) (itemEls (snd (close_popover s)))
       \<and> fst (open_popover h (snd (close_popover st))) = None
       \<and> opened (snd (open_popover h (snd (close_popover st))))
       \<and> popoverClicked v (Row r) (snd (open_popover h (snd (close_popover st))))
           = (None, setConfirmationState r (snd (open_popover h (snd (close_popover st)))))
       \<and> hasConfirmationState r (setConfirmationState r (snd (open_popover h (snd (close_popover st)))))
       \<and> invoked (setConfirmationState r (snd (open_popover h (snd (close_popover st))))) = invoked st"
proof -
  have i: "popover_inv s" "popover_inv st"
    using assms by (simp_all add: reachable_inv)
  show ?thesis
    using close_popover_ok(1,2) [OF assms(2)] close_clears_rows [OF i(1) assms(2)]
      reopened_row_arms_again [OF i(2) assms(4) assms(5), of h v]
    by (simp del: split_paired_All)
qed

theorem close_resets_confirmation_witness:
  "reachable Local (armed_example Local)
   \<and> wrapper (armed_example Local)
       = Some \<lparr>popoverOpened = False, wrapper_children = [SearchInput, ItemEl 0]\<rparr>
   \<and> 0 \<in> set (attached (armed_example Local))
   \<and> hasConfirmationState 0 (armed_example Local)
   \<and> \<not> hasConfirmationState 0 (snd (close_popover (armed_example Local)))
   \<and> popoverClicked Local (Row 0)
        (snd (open_popover (\<lambda>p. False) (snd (close_popover (armed_example Local)))))
       = (None, setConfirmationState 0
           (snd (open_popover (\<lambda>p. False) (snd (close_popover (armed_example Local))))))
   \<and> invoked (setConfirmationState 0
        (snd (open_popover (\<lambda>p. False) (snd (close_popover (armed_example Local)))))) = []"
proof -
  have a0: "0 \<in> set (attached (example_menu Local [menu_item ''Delete'' True 7]))"
    by (simp add: model_defs)
  have r: "reachable Local (armed_example Local)"
    unfolding armed_example_def
    using reachable_example_menu a0 by (rule reachable.clicked)
  have w: "wrapper (armed_example Local)
      = Some \<lparr>popoverOpened = False, wrapper_children = [SearchInput, ItemEl 0]\<rparr>"
    by (simp add: armed_example_def model_defs menu_item_def)
  have a: "0 \<in> set (attached (armed_example Local))"
    by (simp add: armed_example_def model_defs menu_item_def)
  have c: "hasConfirmationState 0 (armed_example Local)"
    by (simp add: armed_example_def model_defs menu_item_def)
  have n: "invoked (armed_example Local) = []"
    by (simp add: armed_example_def model_defs menu_item_def)
  have at: "attached (armed_example Local) = [0]"
    by (simp add: armed_example_def model_defs menu_item_def)
  show ?thesis
    using close_resets_confirmation [OF r w r a c, of "\<lambda>p. False"] r w a c
    by (simp add: n at)
qed

text \<open>
  C6, at an input where the code departs from it. One item whose \<open>hideIf\<close> returns
  true; the list is rendered, then rendered again (remote variant: a second
  \<open>renderItems\<close>; local variant: a keystroke whose query matches the item). \<open>open\<close>
  returns normally, but it toggles \<open>itemEls[0]\<close>, the detached row of the first render:
  the row that is attached to the wrapper stays visible.
\<close>

theorem open_after_rerender_toggles_stale_row:
  "fst (open_popover (\<lambda>p. True)
          (snd (renderItems Remote [hideable_item] (example_menu Remote [hideable_item])))) = None
   \<and> attached (snd (open_popover (\<lambda>p. True)
          (snd (renderItems Remote [hideable_item] (example_menu Remote [hideable_item]))))) = [1]
   \<and> map itemHidden (heap (snd (open_popover (\<lambda>p. True)
          (snd (renderItems Remote [hideable_item] (example_menu Remote [hideable_item]))))))
       = [True, False]
   \<and> fst (open_popover (\<lambda>p. True)
          (snd (keydown_local ''export'' (example_menu Local [hideable_item])))) = None
   \<and> attached (snd (open_popover (\<lambda>p. True)
          (snd (keydown_local ''export'' (example_menu Local [hideable_item]))))) = [1]
   \<and> map itemHidden (heap (snd (open_popover (\<lambda>p. True)
          (snd (keydown_local ''export'' (example_menu Local [hideable_item]))))))
       = [True, False]"
proof -
  have m: "contains_whole_word ''export'' ''Export''"
    by (simp add: match_defs)
  have t: "trim ''export'' = ''export''"
    by (simp add: trim_def is_white_space_def)
  have i: "items (example_menu Local [hideable_item]) = [hideable_item]"
    by (simp add: model_defs)
  have l: "label hideable_item = ''Export''"
    by (simp add: hideable_item_def)
  have k: "keydown_local ''export'' (example_menu Local [hideable_item])
      = renderItems Local [hideable_item] (example_menu Local [hideable_item])"
    by (simp add: keydown_local_eq t i l m)
  show ?thesis
    unfolding k
    by (simp add: model_defs open_popover_def set_hidden_def hideable_item_def menu_item_def)
qed

text \<open>
  C7. In every reachable state of the remote variant a keystroke leaves exactly one
  timeout pending, the one it sets, due 500 milliseconds later; whatever was pending is
  cancelled. Hence for every run of events that starts with a keystroke and in which each
  further keystroke comes less than 500 milliseconds after the one before, at most one
  fetch cycle starts, and none has started by the time of any keystroke of the run: the
  one fetch can start only after the last keystroke, once its timeout is due.
\<close>

theorem debounce_one_fetch_per_burst:
  assumes "reachable Remote st" and "spaced None (Keydown val # es)"
  shows "timers (keydown_remote val st) = [(next_handle st, clock st + 500)]
       \<and> interval (keydown_remote val st) = Some (next_handle st)
       \<and> fetches (run_events (Keydown val # es) st) \<le> fetches st + 1
       \<and> (\<forall>es1 val1 es2. es = es1 @ Keydown val1 # es2 \<longrightarrow>
             fetches (run_events (Keydown val # es1 @ [Keydown val1]) st) = fetches st)"
proof -
  have i: "timers_inv st"
    using assms(1) by (rule reachable_timers_inv)
  let ?st = "keydown_remote val st"
  have k: "timers ?st = [(next_handle st, clock st + 500)]" "interval ?st = Some (next_handle st)"
    using keydown_remote_timers [OF i] by simp_all
  have p: "pending 0 ?st"
    using k by (simp add: pending_def)
  have s: "spaced (Some 0) es"
    using assms(2) by simp
  from burst_core [OF timers_inv_keydown [OF i] p s] k show ?thesis
    by simp
qed

theorem debounce_one_fetch_witness:
  "reachable Remote (new_popover [])
   \<and> spaced None [Keydown ''a'', Elapse 300, Fire 0, Keydown ''ab'', Elapse 500, Fire 1]
   \<and> timers (keydown_remote ''a'' (new_popover [])) = [(0, 500)]
   \<and> fetches (run_events [Keydown ''a'', Elapse 300, Fire 0, Keydown ''ab''] (new_popover [])) = 0
   \<and> fetches (run_events [Keydown ''a'', Elapse 300, Fire 0, Keydown ''ab'', Elapse 500, Fire 1]
        (new_popover [])) = 1"
proof -
  have r: "reachable Remote (new_popover [])"
    by (rule reachable.constructed)
  have s: "spaced None (Keydown ''a'' # [Elapse 300, Fire 0, Keydown ''ab'', Elapse 500, Fire 1])"
    by simp
  have e: "fetches (run_events [Keydown ''a'', Elapse 300, Fire 0, Keydown ''ab'', Elapse 500, Fire 1]
        (new_popover [])) = 1"
    by (simp add: new_popover_def keydown_remote_def clearTimeout_def setTimeout_def elapse_def
        fire_def trim_def escapeValue_def)
  have d: "[Elapse 300, Fire 0, Keydown ''ab'', Elapse 500, Fire 1]
      = [Elapse 300, Fire 0] @ Keydown ''ab'' # [Elapse 500, Fire 1]"
    by simp
  from debounce_one_fetch_per_burst [OF r s] d
  have "fetches (run_events (Keydown ''a'' # [Elapse 300, Fire 0] @ [Keydown ''ab'']) (new_popover [])) 
      = fetches (new_popover [])"
    by blast
  moreover have "timers (keydown_remote ''a'' (new_popover [])) = [(0, 500)]"
    using debounce_one_fetch_per_burst [OF r s] by (simp add: new_popover_def)
  ultimately show ?thesis
    using r s e by (simp add: new_popover_def)
qed

text \<open>
  C8, at an input where the code departs from it. When the fetch is rejected, the
  rejection is caught and logged and no row is touched; but \<open>getData\<close> then reads
  \<open>result.products\<close> of \<open>undefined\<close>, its promise rejects with a TypeError, and the
  chain of the debounce callback has no handler for it.
\<close>

theorem fetch_failure_is_logged_then_rejects:
  "fetch_settled ic (Rejected reason) st
     = (Some TypeError, st\<lparr>console := console st @ [(''error'', reason)]\<rparr>)"
  by (simp add: fetch_settled_def getData_def)

text \<open>
  C9. A click whose target has no ancestor row element (the search field, padding, a gap
  between rows) returns normally, invokes no \<open>onClick\<close> and leaves every row's
  confirmation state, and the whole state, as it was; in both variants.
\<close>

theorem click_outside_rows_is_noop:
  "popoverClicked v NoRow st = (None, st)"
  by (cases v) (simp_all add: popoverClicked_remote_def popoverClicked_local_def)

text \<open>
  C10. When the click resolves to an item whose \<open>onClick\<close> is missing, the call
  \<open>item.onClick()\<close> throws a TypeError and changes nothing. The one click that does not
  reach the call is the arming click on a row whose item requires confirmation and is
  not armed yet; it arms the row, as for any other item. Both variants.
\<close>

theorem click_without_onClick_throws:
  assumes "item_at st (dataset_index (heap st ! r)) = Some it" and "onClick it = None"
  shows "popoverClicked v (Row r) st =
     (if confirmationRequired it \<and> \<not> hasConfirmationState r st
      then (None, setConfirmationState r st) else (Some TypeError, st))"
  using assms by (rule click_without_onClick)

theorem click_without_onClick_witness:
  "item_at (example_menu Remote [(menu_item ''Rename'' False 7)\<lparr>onClick := None\<rparr>])
     (dataset_index (heap (example_menu Remote [(menu_item ''Rename'' False 7)\<lparr>onClick := None\<rparr>]) ! 0))
     = Some ((menu_item ''Rename'' False 7)\<lparr>onClick := None\<rparr>)
   \<and> onClick ((menu_item ''Rename'' False 7)\<lparr>onClick := None\<rparr>) = None
   \<and> popoverClicked Remote (Row 0)
        (example_menu Remote [(menu_item ''Rename'' False 7)\<lparr>onClick := None\<rparr>])
       = (Some TypeError, example_menu Remote [(menu_item ''Rename'' False 7)\<lparr>onClick := None\<rparr>])
   \<and> popoverClicked Local (Row 0)
        (example_menu Local [(menu_item ''Rename'' False 7)\<lparr>onClick := None\<rparr>])
       = (Some TypeError, example_menu Local [(menu_item ''Rename'' False 7)\<lparr>onClick := None\<rparr>])"
proof -
  let ?it = "(menu_item ''Rename'' False 7)\<lparr>onClick := None\<rparr>"
  have a: "item_at (example_menu v [?it]) (dataset_index (heap (example_menu v [?it]) ! 0)) = Some ?it" for v
    by (cases v) (simp_all add: model_defs)
  have b: "onClick ?it = None"
    by simp
  have c: "\<not> confirmationRequired ?it"
    by (simp add: menu_item_def)
  show ?thesis
    using click_without_onClick_throws [OF a b, of Remote Remote]
      click_without_onClick_throws [OF a b, of Local Local] a [of Remote] c
    by simp
qed

end
